theory Spec2Isabelle
  imports Main "HOL-Library.Word" "HOL-Library.Multiset" "HOL-Library.AList"
begin

section \<open>Data model\<close>

text \<open>
  The remote service is an external collaborator. Its endpoints are the fields of the
  record \<open>dropbox\<close> below: each takes the arguments the JavaScript passes and an
  abstract state \<open>'w\<close> of the outside world, and returns either an error (a rejected
  promise) or the endpoint's \<open>result\<close>, with the next state of the world. Every model
  function threads a pair: the log of the calls issued so far and the world.
\<close>

type_synonym byte = "8 word"
type_synonym blob = "byte list"

datatype tag = Folder | File | Deleted

record entry =
  tag :: tag
  name :: string
  path_lower :: string
  rev :: string

record file_object =
  file_name :: string
  file_contents :: blob

datatype write_mode = add | overwrite

record commit_info =
  path :: string
  mode :: write_mode
  autorename :: bool

record upload_session_cursor =
  session_id :: string
  offset :: nat

record folder_contents =
  entries :: "entry list"
  cursor :: string

record list_folder_result = folder_contents +
  has_more :: bool

record longpoll_result =
  changes :: bool
  backoff :: "nat option"

datatype path_error = not_found | malformed_path | other_path_error

datatype error = path_lookup_error path_error | api_error string

datatype api_call =
    FilesUploadSessionStart bool blob
  | FilesUploadSessionAppendV2 upload_session_cursor bool blob
  | FilesUploadSessionFinish upload_session_cursor commit_info blob
  | FilesUpload commit_info blob
  | FilesListFolder string bool
  | FilesListFolderContinue string
  | FilesListFolderLongpoll string nat

record 'w dropbox =
  filesUploadSessionStart :: "bool \<Rightarrow> blob \<Rightarrow> 'w \<Rightarrow> (error + string) \<times> 'w"
  filesUploadSessionAppendV2 ::
    "upload_session_cursor \<Rightarrow> bool \<Rightarrow> blob \<Rightarrow> 'w \<Rightarrow> (error + unit) \<times> 'w"
  filesUploadSessionFinish ::
    "upload_session_cursor \<Rightarrow> commit_info \<Rightarrow> blob \<Rightarrow> 'w \<Rightarrow> (error + entry) \<times> 'w"
  filesUpload :: "commit_info \<Rightarrow> blob \<Rightarrow> 'w \<Rightarrow> (error + entry) \<times> 'w"
  filesListFolder :: "string \<Rightarrow> bool \<Rightarrow> 'w \<Rightarrow> (error + list_folder_result) \<times> 'w"
  filesListFolderContinue :: "string \<Rightarrow> 'w \<Rightarrow> (error + list_folder_result) \<times> 'w"
  filesListFolderLongpoll :: "string \<Rightarrow> nat \<Rightarrow> 'w \<Rightarrow> (error + longpoll_result) \<times> 'w"

type_synonym 'w net = "api_call list \<times> 'w"

text \<open>Issuing one call: it is appended to the log and the endpoint moves the world on.\<close>

definition invoke :: "api_call \<Rightarrow> ('w \<Rightarrow> 'r \<times> 'w) \<Rightarrow> 'w net \<Rightarrow> 'r \<times> 'w net" where
  "invoke c f s = (case f (snd s) of (r, w') \<Rightarrow> (r, (fst s @ [c], w')))"

section \<open>uploadFile (dropboxClient.js)\<close>

text \<open>\<open>Blob.slice(start, end)\<close> for non-negative arguments: both ends are clamped to the size.\<close>

definition slice :: "blob \<Rightarrow> nat \<Rightarrow> nat \<Rightarrow> blob" where
  "slice b s e = drop s (take e b)"

definition size_of :: "file_object \<Rightarrow> nat" where
  "size_of f = length (file_contents f)"

definition CHUNK_SIZE :: nat where
  "CHUNK_SIZE = 64 * 1024 * 1024"

text \<open>
  The \<open>while (offset < file.size)\<close> loop. The result is \<open>Inl e\<close> when a call throws,
  \<open>Inr (Some r)\<close> for \<open>return response.result\<close> and \<open>Inr None\<close> when the loop condition
  fails and the function falls off its end (JavaScript's \<open>undefined\<close>).
\<close>

function uploadLoop ::
  "'w dropbox \<Rightarrow> file_object \<Rightarrow> string \<Rightarrow> string \<Rightarrow> nat \<Rightarrow> 'w net
     \<Rightarrow> (error + entry option) \<times> 'w net" where
  "uploadLoop dbx f targetPath sessionId off s =
     (if off < size_of f then
        (let chunk = slice (file_contents f) off (off + CHUNK_SIZE);
             cur = \<lparr>session_id = sessionId, offset = off\<rparr>
         in if off + length chunk \<ge> size_of f then
              (let commitInfo = \<lparr>path = targetPath, mode = add, autorename = True\<rparr>
               in case invoke (FilesUploadSessionFinish cur commitInfo chunk)
                         (filesUploadSessionFinish dbx cur commitInfo chunk) s of
                    (Inl e, s') \<Rightarrow> (Inl e, s')
                  | (Inr r, s') \<Rightarrow> (Inr (Some r), s'))
            else
              (case invoke (FilesUploadSessionAppendV2 cur False chunk)
                      (filesUploadSessionAppendV2 dbx cur False chunk) s of
                 (Inl e, s') \<Rightarrow> (Inl e, s')
               | (Inr u, s') \<Rightarrow> uploadLoop dbx f targetPath sessionId (off + length chunk) s'))
      else (Inr None, s))"
  by pat_completeness auto
termination
  by (relation "measure (\<lambda>(dbx, f, targetPath, sessionId, off, s). size_of f - off)")
     (auto simp: slice_def CHUNK_SIZE_def size_of_def)

declare uploadLoop.simps [simp del]

definition uploadFile ::
  "'w dropbox \<Rightarrow> string \<Rightarrow> file_object \<Rightarrow> 'w net \<Rightarrow> (error + entry option) \<times> 'w net" where
  "uploadFile dbx pth f s =
     (let targetPath = pth @ ''/'' @ file_name f
      in if size_of f > 150 * 1024 * 1024 then
           (let firstChunk = slice (file_contents f) 0 CHUNK_SIZE
            in case invoke (FilesUploadSessionStart False firstChunk)
                      (filesUploadSessionStart dbx False firstChunk) s of
                 (Inl e, s') \<Rightarrow> (Inl e, s')
               | (Inr sessionId, s') \<Rightarrow>
                   uploadLoop dbx f targetPath sessionId (length firstChunk) s')
         else
           (case invoke (FilesUpload \<lparr>path = targetPath, mode = add, autorename = True\<rparr>
                          (file_contents f))
                   (filesUpload dbx \<lparr>path = targetPath, mode = add, autorename = True\<rparr>
                      (file_contents f)) s of
              (Inl e, s') \<Rightarrow> (Inl e, s')
            | (Inr r, s') \<Rightarrow> (Inr (Some r), s')))"

section \<open>listFolder and getChanges (dropboxClient.js)\<close>

text \<open>
  \<open>String.prototype.toLowerCase\<close> and \<open>String.prototype.localeCompare\<close> belong to the
  JavaScript host (the collation is the host locale's), so they are parameters.
\<close>

record platform =
  toLowerCase :: "string \<Rightarrow> string"
  localeCompare :: "string \<Rightarrow> string \<Rightarrow> int"

text \<open>
  \<open>Array.prototype.sort(compareFn)\<close>: a stable sort by the comparator, written as
  insertion sort (an element goes before the first element it does not exceed, so equal
  elements keep their order).
\<close>

fun insort_by :: "('a \<Rightarrow> 'a \<Rightarrow> int) \<Rightarrow> 'a \<Rightarrow> 'a list \<Rightarrow> 'a list" where
  "insort_by cmp x [] = [x]"
| "insort_by cmp x (y # ys) = (if cmp x y \<le> 0 then x # y # ys else y # insort_by cmp x ys)"

definition array_sort :: "('a \<Rightarrow> 'a \<Rightarrow> int) \<Rightarrow> 'a list \<Rightarrow> 'a list" where
  "array_sort cmp xs = foldr (insort_by cmp) xs []"

text \<open>The comparator passed to \<open>sort\<close>, in \<open>listFolder\<close> and again in \<open>startLongPolling\<close>.\<close>

definition compareEntries :: "platform \<Rightarrow> entry \<Rightarrow> entry \<Rightarrow> int" where
  "compareEntries js a b =
     (if tag a = Folder \<and> tag b \<noteq> Folder then - 1
      else if tag a \<noteq> Folder \<and> tag b = Folder then 1
      else localeCompare js (toLowerCase js (name a)) (toLowerCase js (name b)))"

text \<open>
  The pagination loop \<open>while (response.result.has_more)\<close>, the same text in \<open>listFolder\<close>
  and in \<open>getChanges\<close>. The remote decides when \<open>has_more\<close> becomes false, so the loop
  need not end: \<open>None\<close> is the run that never returns.
\<close>

partial_function (option) continueLoop ::
  "'w dropbox \<Rightarrow> entry list \<Rightarrow> list_folder_result \<Rightarrow> 'w net
     \<Rightarrow> ((error + entry list \<times> list_folder_result) \<times> 'w net) option" where
  "continueLoop dbx allEntries response s =
     (if has_more response then
        (case invoke (FilesListFolderContinue (cursor response))
                (filesListFolderContinue dbx (cursor response)) s of
           (Inl e, s') \<Rightarrow> Some (Inl e, s')
         | (Inr response', s') \<Rightarrow>
             continueLoop dbx (allEntries @ entries response') response' s')
      else Some (Inr (allEntries, response), s))"

definition listFolder ::
  "platform \<Rightarrow> 'w dropbox \<Rightarrow> string \<Rightarrow> 'w net \<Rightarrow> ((error + folder_contents) \<times> 'w net) option" where
  "listFolder js dbx pth s =
     (case invoke (FilesListFolder pth False) (filesListFolder dbx pth False) s of
        (Inl e, s') \<Rightarrow> Some (Inl e, s')
      | (Inr response, s') \<Rightarrow>
          (case continueLoop dbx ([] @ entries response) response s' of
             None \<Rightarrow> None
           | Some (Inl e, s'') \<Rightarrow> Some (Inl e, s'')
           | Some (Inr (allEntries, response'), s'') \<Rightarrow>
               Some (Inr \<lparr>entries = array_sort (compareEntries js) allEntries,
                          cursor = cursor response'\<rparr>, s'')))"

definition getChanges ::
  "'w dropbox \<Rightarrow> string \<Rightarrow> 'w net \<Rightarrow> ((error + folder_contents) \<times> 'w net) option" where
  "getChanges dbx c s =
     (case invoke (FilesListFolderContinue c) (filesListFolderContinue dbx c) s of
        (Inl e, s') \<Rightarrow> Some (Inl e, s')
      | (Inr response, s') \<Rightarrow>
          (case continueLoop dbx ([] @ entries response) response s' of
             None \<Rightarrow> None
           | Some (Inl e, s'') \<Rightarrow> Some (Inl e, s'')
           | Some (Inr (allChanges, response'), s'') \<Rightarrow>
               Some (Inr \<lparr>entries = allChanges, cursor = cursor response'\<rparr>, s'')))"

text \<open>\<open>startLongPoll(cursor, timeout = 30)\<close>: one call of the long-poll endpoint.\<close>

definition startLongPoll ::
  "'w dropbox \<Rightarrow> string \<Rightarrow> 'w net \<Rightarrow> (error + longpoll_result) \<times> 'w net" where
  "startLongPoll dbx c s =
     invoke (FilesListFolderLongpoll c 30) (filesListFolderLongpoll dbx c 30) s"

section \<open>The file browser component (startLongPolling, loadCurrentFolder)\<close>

text \<open>
  The component's React state and refs. A timer reference holds the delay, in
  milliseconds, of the last \<open>setTimeout(() => startLongPolling(), delay)\<close> stored in it.
\<close>

record browser_state =
  entries_st :: "entry list"
  cursor_st :: "string option"
  loading :: bool
  error_st :: "string option"
  toast :: "(string \<times> string) option"
  currentPath_st :: string
  isPollingRef :: bool
  longPollTimeoutRef :: "nat option"
  backoffTimeoutRef :: "nat option"

definition showToast :: "string \<Rightarrow> string \<Rightarrow> browser_state \<Rightarrow> browser_state" where
  "showToast message type st = st\<lparr>toast := Some (message, type)\<rparr>"

text \<open>\<open>String.prototype.split\<close> on one separator character and \<open>Array.prototype.join\<close>.\<close>

fun split_on :: "char \<Rightarrow> string \<Rightarrow> string list" where
  "split_on c [] = [[]]"
| "split_on c (x # xs) =
     (if x = c then [] # split_on c xs
      else (case split_on c xs of [] \<Rightarrow> [[x]] | y # ys \<Rightarrow> (x # y) # ys))"

fun join :: "string \<Rightarrow> string list \<Rightarrow> string" where
  "join sep [] = []"
| "join sep [x] = x"
| "join sep (x # y # ys) = x @ sep @ join sep (y # ys)"

definition handleNavigateUp :: "string \<Rightarrow> browser_state \<Rightarrow> browser_state" where
  "handleNavigateUp currentPath st =
     (if currentPath = [] then st
      else st\<lparr>currentPath_st := join ''/'' (butlast (split_on CHR ''/'' currentPath))\<rparr>)"

text \<open>
  \<open>loadCurrentFolder\<close> reads \<open>dropboxClient\<close> and \<open>currentPath\<close> from the render it was
  created in; they are arguments here. It catches every error of \<open>listFolder\<close>.
\<close>

definition loadCurrentFolder ::
  "platform \<Rightarrow> 'w dropbox \<Rightarrow> string \<Rightarrow> browser_state \<Rightarrow> 'w net
     \<Rightarrow> (browser_state \<times> 'w net) option" where
  "loadCurrentFolder js dbx currentPath st s =
     (let st1 = st\<lparr>loading := True, error_st := None\<rparr>
      in case listFolder js dbx currentPath s of
           None \<Rightarrow> None
         | Some (Inr result, s') \<Rightarrow>
             Some (st1\<lparr>entries_st := entries result, cursor_st := Some (cursor result),
                        loading := False\<rparr>, s')
         | Some (Inl err, s') \<Rightarrow>
             Some ((case err of
                      path_lookup_error pathErrorTag \<Rightarrow>
                        (if pathErrorTag = not_found then
                           handleNavigateUp currentPath
                             (showToast ''The specified file or folder was not found''
                                ''success'' st1)
                         else if pathErrorTag = malformed_path then
                           (showToast ''The specified path is invalid'' ''success'' st1)
                             \<lparr>currentPath_st := []\<rparr>
                         else st1)
                    | api_error msg \<Rightarrow>
                        showToast ''Failed to load folder contents'' ''error''
                          (st1\<lparr>error_st :=
                                 Some ''Failed to load folder contents. Please try again.''\<rparr>))
                   \<lparr>loading := False\<rparr>, s'))"

text \<open>
  The updater passed to \<open>setEntries\<close>. A JavaScript \<open>Map\<close> keeps its keys in insertion
  order: it is an association list with distinct keys, \<open>set\<close> is \<open>AList.update\<close>
  (replace in place, or append) and \<open>delete\<close> is \<open>AList.delete\<close>.
\<close>

definition new_Map :: "('k \<times> 'v) list \<Rightarrow> ('k \<times> 'v) list" where
  "new_Map kvs = foldl (\<lambda>m kv. AList.update (fst kv) (snd kv) m) [] kvs"

definition processChange :: "(string \<times> entry) list \<Rightarrow> entry \<Rightarrow> (string \<times> entry) list" where
  "processChange entriesMap change =
     (if tag change = Deleted then AList.delete (path_lower change) entriesMap
      else AList.update (path_lower change) change entriesMap)"

definition entriesMap_of :: "entry list \<Rightarrow> (string \<times> entry) list" where
  "entriesMap_of prevEntries = new_Map (map (\<lambda>entry. (path_lower entry, entry)) prevEntries)"

definition applyChanges :: "platform \<Rightarrow> entry list \<Rightarrow> entry list \<Rightarrow> entry list" where
  "applyChanges js prevEntries changeEntries =
     (let entriesMap = foldl processChange (entriesMap_of prevEntries) changeEntries
      in array_sort (compareEntries js) (map snd entriesMap))"

text \<open>
  One run of \<open>startLongPolling\<close>. \<open>cursor\<close>, \<open>dropboxClient\<close> and \<open>currentPath\<close> are the
  values of the render the function was created in. A value is falsy when it is
  \<open>null\<close>/\<open>undefined\<close>, the empty string or the number 0.
\<close>

definition startLongPolling ::
  "platform \<Rightarrow> 'w dropbox \<Rightarrow> string option \<Rightarrow> string \<Rightarrow> browser_state \<Rightarrow> 'w net
     \<Rightarrow> (browser_state \<times> 'w net) option" where
  "startLongPolling js dbx cursor0 currentPath st s =
     (case cursor0 of
        None \<Rightarrow> Some (st, s)
      | Some c \<Rightarrow>
          if c = [] \<or> isPollingRef st then Some (st, s)
          else
            (let st1 = st\<lparr>isPollingRef := True\<rparr>
             in case startLongPoll dbx c s of
                  (Inl err, s1) \<Rightarrow>
                    Some (st1\<lparr>isPollingRef := False, longPollTimeoutRef := Some 5000\<rparr>, s1)
                | (Inr result, s1) \<Rightarrow>
                    (case (if changes result then
                             (case getChanges dbx c s1 of
                                None \<Rightarrow> None
                              | Some (Inr chg, s2) \<Rightarrow>
                                  Some (st1\<lparr>entries_st :=
                                               applyChanges js (entries_st st1) (entries chg),
                                             cursor_st := Some (cursor chg)\<rparr>, s2)
                              | Some (Inl err, s2) \<Rightarrow>
                                  loadCurrentFolder js dbx currentPath st1 s2)
                           else Some (st1, s1)) of
                       None \<Rightarrow> None
                     | Some (st2, s2) \<Rightarrow>
                         (case backoff result of
                            None \<Rightarrow> Some (st2\<lparr>longPollTimeoutRef := Some 1000\<rparr>, s2)
                          | Some b \<Rightarrow>
                              if b \<noteq> 0 then
                                Some (st2\<lparr>isPollingRef := False,
                                           backoffTimeoutRef := Some (b * 1000)\<rparr>, s2)
                              else Some (st2\<lparr>longPollTimeoutRef := Some 1000\<rparr>, s2)))))"



section \<open>Notions used to state the properties\<close>

text \<open>The bytes a call carries, and the offset a session call is sent at (0 for the start).\<close>

fun call_contents :: "api_call \<Rightarrow> blob" where
  "call_contents (FilesUploadSessionStart cl b) = b"
| "call_contents (FilesUploadSessionAppendV2 cur cl b) = b"
| "call_contents (FilesUploadSessionFinish cur ci b) = b"
| "call_contents (FilesUpload ci b) = b"
| "call_contents c = []"

fun session_offset :: "api_call \<Rightarrow> nat option" where
  "session_offset (FilesUploadSessionStart cl b) = Some 0"
| "session_offset (FilesUploadSessionAppendV2 cur cl b) = Some (offset cur)"
| "session_offset (FilesUploadSessionFinish cur ci b) = Some (offset cur)"
| "session_offset c = None"

definition bytes_sent :: "api_call list \<Rightarrow> nat" where
  "bytes_sent cs = sum_list (map (\<lambda>c. length (call_contents c)) cs)"

text \<open>A remote that accepts every append and every finish.\<close>

definition accepts_session :: "'w dropbox \<Rightarrow> bool" where
  "accepts_session dbx \<longleftrightarrow>
     (\<forall>cur cl b w. fst (filesUploadSessionAppendV2 dbx cur cl b w) = Inr ()) \<and>
     (\<forall>cur ci b w. \<exists>m. fst (filesUploadSessionFinish dbx cur ci b w) = Inr m)"

text \<open>\<open>sequential n cs\<close>: each session call of \<open>cs\<close> is at the offset reached so far, from \<open>n\<close>.\<close>

fun sequential :: "nat \<Rightarrow> api_call list \<Rightarrow> bool" where
  "sequential n [] = True"
| "sequential n (c # cs) =
     ((case session_offset c of None \<Rightarrow> True | Some off \<Rightarrow> off = n) \<and>
      sequential (n + length (call_contents c)) cs)"

text \<open>
  The calls the loop issues from offset \<open>off\<close> when none fails: appends of full chunks,
  then the finish with what remains.
\<close>

definition session_plan :: "file_object \<Rightarrow> string \<Rightarrow> string \<Rightarrow> nat \<Rightarrow> api_call list" where
  "session_plan f tp sid off =
     map (\<lambda>i. FilesUploadSessionAppendV2 \<lparr>session_id = sid, offset = off + i * CHUNK_SIZE\<rparr> False
             (slice (file_contents f) (off + i * CHUNK_SIZE) (off + i * CHUNK_SIZE + CHUNK_SIZE)))
         [0..<(size_of f - off - 1) div CHUNK_SIZE]
     @ [FilesUploadSessionFinish
          \<lparr>session_id = sid, offset = off + (size_of f - off - 1) div CHUNK_SIZE * CHUNK_SIZE\<rparr>
          \<lparr>path = tp, mode = add, autorename = True\<rparr>
          (slice (file_contents f) (off + (size_of f - off - 1) div CHUNK_SIZE * CHUNK_SIZE)
             (off + (size_of f - off - 1) div CHUNK_SIZE * CHUNK_SIZE + CHUNK_SIZE))]"

text \<open>Concrete inputs: a remote that accepts every upload call, and a file of zero bytes.\<close>

definition accepting_remote :: "nat dropbox" where
  "accepting_remote =
     \<lparr>filesUploadSessionStart = (\<lambda>cl b w. (Inr ''session-1'', Suc w)),
      filesUploadSessionAppendV2 = (\<lambda>cur cl b w. (Inr (), Suc w)),
      filesUploadSessionFinish =
        (\<lambda>cur ci b w. (Inr \<lparr>tag = File, name = path ci, path_lower = path ci, rev = ''r1''\<rparr>, Suc w)),
      filesUpload =
        (\<lambda>ci b w. (Inr \<lparr>tag = File, name = path ci, path_lower = path ci, rev = ''r1''\<rparr>, Suc w)),
      filesListFolder = (\<lambda>p d w. (Inl (api_error ''unavailable''), Suc w)),
      filesListFolderContinue = (\<lambda>c w. (Inl (api_error ''unavailable''), Suc w)),
      filesListFolderLongpoll = (\<lambda>c t w. (Inl (api_error ''unavailable''), Suc w))\<rparr>"

definition zeros_file :: "nat \<Rightarrow> file_object" where
  "zeros_file n = \<lparr>file_name = ''data.bin'', file_contents = replicate n 0\<rparr>"

text \<open>
  \<open>serves dbx p ps w w'\<close>: after page \<open>p\<close>, from world \<open>w\<close>, the continue calls return the
  pages \<open>ps\<close> in turn, each asked for with the cursor of the page before it; the last page
  is the first without \<open>has_more\<close>, and the world is then \<open>w'\<close>.
\<close>

fun serves ::
  "'w dropbox \<Rightarrow> list_folder_result \<Rightarrow> list_folder_result list \<Rightarrow> 'w \<Rightarrow> 'w \<Rightarrow> bool" where
  "serves dbx p [] w w' = (\<not> has_more p \<and> w' = w)"
| "serves dbx p (q # qs) w w' =
     (has_more p \<and>
      (case filesListFolderContinue dbx (cursor p) w of
         (Inl e, w1) \<Rightarrow> False
       | (Inr q', w1) \<Rightarrow> q' = q \<and> serves dbx q qs w1 w'))"

text \<open>A comparator that is a total preorder, as \<open>Array.prototype.sort\<close> expects.\<close>

definition consistent_comparator :: "('a \<Rightarrow> 'a \<Rightarrow> int) \<Rightarrow> bool" where
  "consistent_comparator cmp \<longleftrightarrow>
     (\<forall>a b. cmp a b \<le> 0 \<or> cmp b a \<le> 0) \<and>
     (\<forall>a b c. cmp a b \<le> 0 \<and> cmp b c \<le> 0 \<longrightarrow> cmp a c \<le> 0)"

text \<open>
  Concrete inputs: a remote whose listing calls return the answers queued in the world,
  one per call, and whose long-poll returns \<open>lp\<close>; a platform that lower-cases ASCII
  letters and compares strings by character codes; sample pages, entries and changes.
\<close>

definition scripted_remote ::
  "longpoll_result \<Rightarrow> ((error + list_folder_result) list) dropbox" where
  "scripted_remote lp =
     \<lparr>filesUploadSessionStart = (\<lambda>cl b w. (Inr ''session-1'', w)),
      filesUploadSessionAppendV2 = (\<lambda>cur cl b w. (Inr (), w)),
      filesUploadSessionFinish =
        (\<lambda>cur ci b w. (Inr \<lparr>tag = File, name = path ci, path_lower = path ci, rev = ''r1''\<rparr>, w)),
      filesUpload =
        (\<lambda>ci b w. (Inr \<lparr>tag = File, name = path ci, path_lower = path ci, rev = ''r1''\<rparr>, w)),
      filesListFolder =
        (\<lambda>p d w. case w of [] \<Rightarrow> (Inl (api_error ''unavailable''), []) | r # rs \<Rightarrow> (r, rs)),
      filesListFolderContinue =
        (\<lambda>c w. case w of [] \<Rightarrow> (Inl (api_error ''unavailable''), []) | r # rs \<Rightarrow> (r, rs)),
      filesListFolderLongpoll = (\<lambda>c t w. (Inr lp, w))\<rparr>"

definition ascii_lower :: "char \<Rightarrow> char" where
  "ascii_lower c =
     (if 65 \<le> (of_char c :: nat) \<and> (of_char c :: nat) \<le> 90
      then char_of (of_char c + 32 :: nat) else c)"

fun compare_codes :: "string \<Rightarrow> string \<Rightarrow> int" where
  "compare_codes [] [] = 0"
| "compare_codes [] (y # ys) = - 1"
| "compare_codes (x # xs) [] = 1"
| "compare_codes (x # xs) (y # ys) =
     (if (of_char x :: nat) < of_char y then - 1
      else if (of_char y :: nat) < of_char x then 1
      else compare_codes xs ys)"

definition ascii_platform :: platform where
  "ascii_platform = \<lparr>toLowerCase = map ascii_lower, localeCompare = compare_codes\<rparr>"

definition sample_page1 :: list_folder_result where
  "sample_page1 =
     \<lparr>entries = [\<lparr>tag = File, name = ''b.txt'', path_lower = ''/docs/b.txt'', rev = ''r1''\<rparr>,
                 \<lparr>tag = Folder, name = ''Zeta'', path_lower = ''/docs/zeta'', rev = []\<rparr>],
      cursor = ''c1'', has_more = True\<rparr>"

definition sample_page2 :: list_folder_result where
  "sample_page2 =
     \<lparr>entries = [\<lparr>tag = File, name = ''A.txt'', path_lower = ''/docs/a.txt'', rev = ''r2''\<rparr>],
      cursor = ''c2'', has_more = False\<rparr>"



definition sample_entries :: "entry list" where
  "sample_entries =
     [\<lparr>tag = File, name = ''b.txt'', path_lower = ''/docs/b.txt'', rev = ''r1''\<rparr>]"


fun is_longpoll :: "api_call \<Rightarrow> bool" where
  "is_longpoll (FilesListFolderLongpoll c t) = True"
| "is_longpoll x = False"

definition sample_state :: browser_state where
  "sample_state =
     \<lparr>entries_st = sample_entries, cursor_st = Some ''c1'', loading = False, error_st = None,
      toast = None, currentPath_st = ''/docs'', isPollingRef = False,
      longPollTimeoutRef = None, backoffTimeoutRef = None\<rparr>"


text \<open>
  Modelled from the spec: the batch transfer scheduler (\<open>performant_upload.py\<close>, of which
  the repository sample holds only the README and \<open>config.ini.example\<close>). Section 4.4
  describes two nested bounded pools: an outer pool of size \<open>B\<close> (\<open>batch_thread_count\<close>,
  the upload sessions running at one time) and, within each running job, an inner pool of
  size \<open>C\<close> (\<open>concurrent_thread_count\<close>, the chunk operations of that session running at
  one time). The scheduler state holds the number of jobs still waiting, the number of
  chunk operations in flight for each running job, and the number of finished jobs. A
  schedule is any sequence of events; an event that a full pool does not admit leaves the
  state as it is.
\<close>

record scheduler =
  waiting :: nat
  running :: "nat list"
  finished :: nat

datatype pool_event = JobStarts | OpStarts nat | OpEnds nat | JobEnds nat

fun pool_step :: "nat \<Rightarrow> nat \<Rightarrow> scheduler \<Rightarrow> pool_event \<Rightarrow> scheduler" where
  "pool_step B C s JobStarts =
     (if 0 < waiting s \<and> length (running s) < B
      then s\<lparr>waiting := waiting s - 1, running := running s @ [0]\<rparr> else s)"
| "pool_step B C s (OpStarts i) =
     (if i < length (running s) \<and> running s ! i < C
      then s\<lparr>running := (running s)[i := running s ! i + 1]\<rparr> else s)"
| "pool_step B C s (OpEnds i) =
     (if i < length (running s) \<and> 0 < running s ! i
      then s\<lparr>running := (running s)[i := running s ! i - 1]\<rparr> else s)"
| "pool_step B C s (JobEnds i) =
     (if i < length (running s) \<and> running s ! i = 0
      then s\<lparr>running := take i (running s) @ drop (Suc i) (running s),
               finished := finished s + 1\<rparr> else s)"

definition runBatch_schedule :: "nat \<Rightarrow> nat \<Rightarrow> nat \<Rightarrow> pool_event list \<Rightarrow> scheduler" where
  "runBatch_schedule B C jobs evs =
     foldl (pool_step B C) \<lparr>waiting = jobs, running = [], finished = 0\<rparr> evs"

definition in_flight :: "scheduler \<Rightarrow> nat" where
  "in_flight s = sum_list (running s)"

definition within_pools :: "nat \<Rightarrow> nat \<Rightarrow> scheduler \<Rightarrow> bool" where
  "within_pools B C s \<longleftrightarrow> length (running s) \<le> B \<and> list_all (\<lambda>n. n \<le> C) (running s)"

section \<open>The upload session\<close>

lemma length_slice: "length (slice b s e) = min e (length b) - s"
  by (simp add: slice_def min.commute)

lemma chunks_zero: "0 < C \<Longrightarrow> off < n \<Longrightarrow> (n - off - 1) div C = 0 \<Longrightarrow> n - off \<le> (C::nat)"
  by (auto simp: div_eq_0_iff)

lemma chunks_Suc_gt: "0 < C \<Longrightarrow> (n - off - 1) div C = Suc m \<Longrightarrow> off + C < (n::nat)"
  by (cases "n - off - 1 < C") auto

lemma chunks_Suc_rest:
  "0 < C \<Longrightarrow> (n - off - 1) div C = Suc m \<Longrightarrow> (n - (off + C) - 1) div C = (m::nat)"
proof -
  assume C: "0 < C" and d: "(n - off - 1) div C = Suc m"
  have ge: "C \<le> n - off - 1" using d C by (cases "n - off - 1 < C") auto
  have "(n - off - 1) div C = Suc ((n - off - 1 - C) div C)"
    using C ge by (rule le_div_geq)
  with d have "(n - off - 1 - C) div C = m" by simp
  moreover have "n - off - 1 - C = n - (off + C) - 1" by simp
  ultimately show ?thesis by simp
qed

lemma CHUNK_SIZE_pos: "0 < CHUNK_SIZE"
  by (simp add: CHUNK_SIZE_def)

lemma uploadLoop_last:
  assumes "off < size_of f" and "(size_of f - off - 1) div CHUNK_SIZE = 0"
  shows "uploadLoop dbx f tp sid off s =
     (case invoke (FilesUploadSessionFinish \<lparr>session_id = sid, offset = off\<rparr>
                     \<lparr>path = tp, mode = add, autorename = True\<rparr>
                     (slice (file_contents f) off (off + CHUNK_SIZE)))
              (filesUploadSessionFinish dbx \<lparr>session_id = sid, offset = off\<rparr>
                     \<lparr>path = tp, mode = add, autorename = True\<rparr>
                     (slice (file_contents f) off (off + CHUNK_SIZE))) s of
        (Inl e, s') \<Rightarrow> (Inl e, s')
      | (Inr r, s') \<Rightarrow> (Inr (Some r), s'))"
proof -
  have "size_of f - off \<le> CHUNK_SIZE"
    using CHUNK_SIZE_pos assms by (rule chunks_zero)
  then show ?thesis
    using assms(1) by (subst uploadLoop.simps) (simp add: Let_def length_slice size_of_def)
qed

lemma uploadLoop_more:
  assumes "(size_of f - off - 1) div CHUNK_SIZE = Suc m"
  shows "uploadLoop dbx f tp sid off s =
     (case invoke (FilesUploadSessionAppendV2 \<lparr>session_id = sid, offset = off\<rparr> False
                     (slice (file_contents f) off (off + CHUNK_SIZE)))
              (filesUploadSessionAppendV2 dbx \<lparr>session_id = sid, offset = off\<rparr> False
                     (slice (file_contents f) off (off + CHUNK_SIZE))) s of
        (Inl e, s') \<Rightarrow> (Inl e, s')
      | (Inr u, s') \<Rightarrow> uploadLoop dbx f tp sid (off + CHUNK_SIZE) s')"
proof -
  have gt: "off + CHUNK_SIZE < size_of f"
    using CHUNK_SIZE_pos assms by (rule chunks_Suc_gt)
  then have len: "length (slice (file_contents f) off (off + CHUNK_SIZE)) = CHUNK_SIZE"
    by (simp add: length_slice size_of_def)
  show ?thesis
    using gt by (subst uploadLoop.simps) (simp add: Let_def len split: prod.splits sum.splits)
qed

lemma session_plan_last:
  assumes "(size_of f - off - 1) div CHUNK_SIZE = 0"
  shows "session_plan f tp sid off =
     [FilesUploadSessionFinish \<lparr>session_id = sid, offset = off\<rparr>
        \<lparr>path = tp, mode = add, autorename = True\<rparr>
        (slice (file_contents f) off (off + CHUNK_SIZE))]"
  using assms by (simp add: session_plan_def)

lemma session_plan_more:
  assumes "(size_of f - off - 1) div CHUNK_SIZE = Suc m"
  shows "session_plan f tp sid off =
     FilesUploadSessionAppendV2 \<lparr>session_id = sid, offset = off\<rparr> False
        (slice (file_contents f) off (off + CHUNK_SIZE))
     # session_plan f tp sid (off + CHUNK_SIZE)"
proof -
  have m: "(size_of f - (off + CHUNK_SIZE) - 1) div CHUNK_SIZE = m"
    using CHUNK_SIZE_pos assms by (rule chunks_Suc_rest)
  show ?thesis
    unfolding session_plan_def assms m
    by (simp add: map_upt_Suc add.assoc del: upt_Suc)
qed

text \<open>Whatever the remote answers, the loop issues a non-empty prefix of the plan.\<close>

lemma uploadLoop_prefix:
  "off < size_of f \<Longrightarrow> (size_of f - off - 1) div CHUNK_SIZE = m \<Longrightarrow>
   \<exists>calls rest. fst (snd (uploadLoop dbx f tp sid off s)) = fst s @ calls \<and> calls \<noteq> [] \<and>
      session_plan f tp sid off = calls @ rest \<and>
      (\<forall>r. fst (uploadLoop dbx f tp sid off s) = Inr r \<longrightarrow> rest = [] \<and> r \<noteq> None)"
proof (induction m arbitrary: off s)
  case 0
  show ?case
    unfolding uploadLoop_last[OF 0] session_plan_last[OF 0(2)]
    by (auto simp: invoke_def split: prod.splits sum.splits)
next
  case (Suc m)
  let ?c = "FilesUploadSessionAppendV2 \<lparr>session_id = sid, offset = off\<rparr> False
              (slice (file_contents f) off (off + CHUNK_SIZE))"
  let ?ep = "filesUploadSessionAppendV2 dbx \<lparr>session_id = sid, offset = off\<rparr> False
              (slice (file_contents f) off (off + CHUNK_SIZE))"
  have gt: "off + CHUNK_SIZE < size_of f"
    using CHUNK_SIZE_pos Suc(3) by (rule chunks_Suc_gt)
  have m: "(size_of f - (off + CHUNK_SIZE) - 1) div CHUNK_SIZE = m"
    using CHUNK_SIZE_pos Suc(3) by (rule chunks_Suc_rest)
  obtain r s' where inv: "invoke ?c ?ep s = (r, s')" by (cases "invoke ?c ?ep s")
  then have log: "fst s' = fst s @ [?c]"
    by (auto simp: invoke_def split: prod.splits)
  show ?case
  proof (cases r)
    case (Inl e)
    then have "uploadLoop dbx f tp sid off s = (Inl e, s')"
      unfolding uploadLoop_more[OF Suc(3)] using inv by simp
    then show ?thesis
      unfolding session_plan_more[OF Suc(3)] using log by simp
  next
    case (Inr u)
    then have step: "uploadLoop dbx f tp sid off s = uploadLoop dbx f tp sid (off + CHUNK_SIZE) s'"
      unfolding uploadLoop_more[OF Suc(3)] using inv by simp
    from Suc.IH[OF gt m, of s'] obtain calls rest where
      "fst (snd (uploadLoop dbx f tp sid (off + CHUNK_SIZE) s')) = fst s' @ calls"
      "session_plan f tp sid (off + CHUNK_SIZE) = calls @ rest"
      "\<forall>r. fst (uploadLoop dbx f tp sid (off + CHUNK_SIZE) s') = Inr r \<longrightarrow> rest = [] \<and> r \<noteq> None"
      by blast
    then show ?thesis
      unfolding step session_plan_more[OF Suc(3)] log
      by (intro exI[of _ "?c # calls"] exI[of _ rest]) simp
  qed
qed

lemma uploadLoop_accepted:
  assumes acc: "accepts_session dbx"
  shows "off < size_of f \<Longrightarrow> (size_of f - off - 1) div CHUNK_SIZE = m \<Longrightarrow>
    \<exists>r. fst (uploadLoop dbx f tp sid off s) = Inr r"
proof (induction m arbitrary: off s)
  case 0
  obtain r where "fst (filesUploadSessionFinish dbx \<lparr>session_id = sid, offset = off\<rparr>
                \<lparr>path = tp, mode = add, autorename = True\<rparr>
                (slice (file_contents f) off (off + CHUNK_SIZE)) (snd s)) = Inr r"
    using acc unfolding accepts_session_def by blast
  then show ?case
    unfolding uploadLoop_last[OF 0]
    by (auto simp: invoke_def split: prod.splits sum.splits)
next
  case (Suc m)
  have gt: "off + CHUNK_SIZE < size_of f"
    using CHUNK_SIZE_pos Suc(3) by (rule chunks_Suc_gt)
  have m: "(size_of f - (off + CHUNK_SIZE) - 1) div CHUNK_SIZE = m"
    using CHUNK_SIZE_pos Suc(3) by (rule chunks_Suc_rest)
  have "fst (filesUploadSessionAppendV2 dbx \<lparr>session_id = sid, offset = off\<rparr> False
              (slice (file_contents f) off (off + CHUNK_SIZE)) (snd s)) = Inr ()"
    using acc unfolding accepts_session_def by blast
  then show ?case
    unfolding uploadLoop_more[OF Suc(3)]
    using Suc.IH[OF gt m]
    by (auto simp: invoke_def split: prod.splits sum.splits)
qed

lemma sequential_append:
  "sequential n (xs @ ys) \<longleftrightarrow> sequential n xs \<and> sequential (n + bytes_sent xs) ys"
  by (induction xs arbitrary: n) (auto simp: bytes_sent_def add.assoc)

lemma session_plan_sequential:
  "off < size_of f \<Longrightarrow> (size_of f - off - 1) div CHUNK_SIZE = m \<Longrightarrow>
   sequential off (session_plan f tp sid off)"
proof (induction m arbitrary: off)
  case 0
  then show ?case by (simp add: session_plan_last)
next
  case (Suc m)
  have gt: "off + CHUNK_SIZE < size_of f"
    using CHUNK_SIZE_pos Suc(3) by (rule chunks_Suc_gt)
  have m: "(size_of f - (off + CHUNK_SIZE) - 1) div CHUNK_SIZE = m"
    using CHUNK_SIZE_pos Suc(3) by (rule chunks_Suc_rest)
  have len: "length (slice (file_contents f) off (off + CHUNK_SIZE)) = CHUNK_SIZE"
    using gt by (simp add: length_slice size_of_def)
  show ?case
    unfolding session_plan_more[OF Suc(3)] using Suc.IH[OF gt m] by (simp add: len)
qed


lemma uploadFile_small:
  assumes "size_of f \<le> 150 * 1024 * 1024"
  shows "uploadFile dbx pth f s =
    (case invoke (FilesUpload \<lparr>path = pth @ ''/'' @ file_name f, mode = add, autorename = True\<rparr>
                    (file_contents f))
            (filesUpload dbx \<lparr>path = pth @ ''/'' @ file_name f, mode = add, autorename = True\<rparr>
                    (file_contents f)) s of
       (Inl e, s') \<Rightarrow> (Inl e, s')
     | (Inr r, s') \<Rightarrow> (Inr (Some r), s'))"
  using assms by (simp add: uploadFile_def Let_def)

lemma uploadFile_large:
  assumes "150 * 1024 * 1024 < size_of f"
  shows "uploadFile dbx pth f s =
    (case invoke (FilesUploadSessionStart False (slice (file_contents f) 0 CHUNK_SIZE))
            (filesUploadSessionStart dbx False (slice (file_contents f) 0 CHUNK_SIZE)) s of
       (Inl e, s') \<Rightarrow> (Inl e, s')
     | (Inr sessionId, s') \<Rightarrow>
         uploadLoop dbx f (pth @ ''/'' @ file_name f) sessionId CHUNK_SIZE s')"
proof -
  have "length (slice (file_contents f) 0 CHUNK_SIZE) = CHUNK_SIZE"
    using assms by (simp add: length_slice size_of_def CHUNK_SIZE_def)
  then show ?thesis
    using assms by (simp add: uploadFile_def Let_def split: prod.splits sum.splits)
qed

lemma uploadFile_small_log:
  assumes "size_of f \<le> 150 * 1024 * 1024"
  shows "fst (snd (uploadFile dbx pth f (tr, w))) =
    tr @ [FilesUpload \<lparr>path = pth @ ''/'' @ file_name f, mode = add, autorename = True\<rparr>
            (file_contents f)]"
  unfolding uploadFile_small[OF assms]
  by (simp add: invoke_def split: prod.splits sum.splits)

text \<open>Above the threshold: a Start, then a prefix of the plan; the whole plan on success.\<close>

lemma uploadFile_large_log:
  assumes big: "150 * 1024 * 1024 < size_of f"
  shows "\<exists>calls. fst (snd (uploadFile dbx pth f (tr, w))) =
      tr @ FilesUploadSessionStart False (slice (file_contents f) 0 CHUNK_SIZE) # calls \<and>
     (calls = [] \<and> (\<exists>e. fst (uploadFile dbx pth f (tr, w)) = Inl e) \<or>
      (\<exists>sid w1 rest. filesUploadSessionStart dbx False (slice (file_contents f) 0 CHUNK_SIZE) w
                         = (Inr sid, w1) \<and>
          session_plan f (pth @ ''/'' @ file_name f) sid CHUNK_SIZE = calls @ rest \<and>
          (\<forall>r. fst (uploadFile dbx pth f (tr, w)) = Inr r \<longrightarrow> rest = [] \<and> r \<noteq> None)))"
proof -
  let ?first = "slice (file_contents f) 0 CHUNK_SIZE"
  have lt: "CHUNK_SIZE < size_of f" using big by (simp add: CHUNK_SIZE_def)
  obtain r w1 where st: "filesUploadSessionStart dbx False ?first w = (r, w1)"
    by (cases "filesUploadSessionStart dbx False ?first w")
  show ?thesis
  proof (cases r)
    case (Inl e)
    then show ?thesis
      unfolding uploadFile_large[OF big] using st by (simp add: invoke_def)
  next
    case (Inr sid)
    have eq: "uploadFile dbx pth f (tr, w) =
        uploadLoop dbx f (pth @ ''/'' @ file_name f) sid CHUNK_SIZE
          (tr @ [FilesUploadSessionStart False ?first], w1)"
      unfolding uploadFile_large[OF big] using st Inr by (simp add: invoke_def)
    from uploadLoop_prefix[OF lt refl, of dbx "pth @ ''/'' @ file_name f" sid
        "(tr @ [FilesUploadSessionStart False ?first], w1)"]
    show ?thesis
      unfolding eq using st Inr by auto
  qed
qed






lemma size_of_zeros_file: "size_of (zeros_file n) = n"
  by (simp add: size_of_def zeros_file_def)

lemma accepts_session_accepting_remote: "accepts_session accepting_remote"
  by (simp add: accepts_session_def accepting_remote_def)

lemma uploadFile_accepted:
  assumes acc: "accepts_session dbx" and big: "150 * 1024 * 1024 < size_of f"
    and st: "filesUploadSessionStart dbx False (slice (file_contents f) 0 CHUNK_SIZE) w = (Inr sid, w1)"
  shows "\<exists>r w'. uploadFile dbx pth f ([], w) =
     (Inr (Some r),
      FilesUploadSessionStart False (slice (file_contents f) 0 CHUNK_SIZE)
        # session_plan f (pth @ ''/'' @ file_name f) sid CHUNK_SIZE, w')"
proof -
  let ?first = "slice (file_contents f) 0 CHUNK_SIZE"
  let ?tp = "pth @ ''/'' @ file_name f"
  let ?s1 = "([FilesUploadSessionStart False ?first], w1)"
  have lt: "CHUNK_SIZE < size_of f" using big by (simp add: CHUNK_SIZE_def)
  have eq: "uploadFile dbx pth f ([], w) = uploadLoop dbx f ?tp sid CHUNK_SIZE ?s1"
    unfolding uploadFile_large[OF big] using st by (simp add: invoke_def)
  from uploadLoop_accepted[OF acc lt refl, of ?tp sid ?s1]
  obtain r where r: "fst (uploadLoop dbx f ?tp sid CHUNK_SIZE ?s1) = Inr r" by blast
  from uploadLoop_prefix[OF lt refl, of dbx ?tp sid ?s1] r
  obtain calls where "fst (snd (uploadLoop dbx f ?tp sid CHUNK_SIZE ?s1)) = fst ?s1 @ calls"
    and "session_plan f ?tp sid CHUNK_SIZE = calls" and "r \<noteq> None"
    by auto
  with r show ?thesis
    unfolding eq by (cases "uploadLoop dbx f ?tp sid CHUNK_SIZE ?s1") auto
qed


lemma log_sequential: "sequential 0 (fst (snd (uploadFile dbx pth f ([], w))))"
proof (cases "size_of f \<le> 150 * 1024 * 1024")
  case True
  then show ?thesis
    using uploadFile_small_log[of f dbx pth "[]" w] by simp
next
  case False
  then have big: "150 * 1024 * 1024 < size_of f" by simp
  then have lt: "CHUNK_SIZE < size_of f" by (simp add: CHUNK_SIZE_def)
  have len: "length (slice (file_contents f) 0 CHUNK_SIZE) = CHUNK_SIZE"
    using lt by (simp add: length_slice size_of_def)
  from uploadFile_large_log[OF big, of dbx pth "[]" w]
  obtain calls where log: "fst (snd (uploadFile dbx pth f ([], w))) =
      FilesUploadSessionStart False (slice (file_contents f) 0 CHUNK_SIZE) # calls"
    and alt: "calls = [] \<or>
      (\<exists>sid rest. session_plan f (pth @ ''/'' @ file_name f) sid CHUNK_SIZE = calls @ rest)"
    by auto
  from alt have "sequential CHUNK_SIZE calls"
  proof
    assume "calls = []"
    then show ?thesis by simp
  next
    assume "\<exists>sid rest. session_plan f (pth @ ''/'' @ file_name f) sid CHUNK_SIZE = calls @ rest"
    then obtain sid rest where
      plan: "session_plan f (pth @ ''/'' @ file_name f) sid CHUNK_SIZE = calls @ rest"
      by blast
    have "sequential CHUNK_SIZE (session_plan f (pth @ ''/'' @ file_name f) sid CHUNK_SIZE)"
      using lt refl by (rule session_plan_sequential)
    then show ?thesis
      unfolding plan by (simp add: sequential_append)
  qed
  then show ?thesis
    unfolding log by (simp add: len)
qed

text \<open>
  Claim C7. Wherever a session call stands in the log of \<open>uploadFile\<close>, its offset is the
  number of bytes carried by all calls before it, and the session call after it, if any,
  is at this offset plus the length of this chunk: offsets never decrease and advance by
  exactly the bytes sent. It holds for every remote behaviour, failures included.
\<close>

theorem session_offsets_sequential:
  assumes "fst (snd (uploadFile dbx pth f ([], w))) = pre @ c # post"
    and "session_offset c = Some off"
  shows "off = bytes_sent pre \<and>
    (\<forall>c' post' off'. post = c' # post' \<and> session_offset c' = Some off' \<longrightarrow>
        off' = off + length (call_contents c) \<and> off \<le> off')"
proof -
  have "sequential 0 (pre @ c # post)"
    using log_sequential[of dbx pth f w] assms(1) by simp
  then have "sequential (bytes_sent pre) (c # post)"
    by (simp add: sequential_append)
  with assms(2) have off: "off = bytes_sent pre"
    and post: "sequential (off + length (call_contents c)) post"
    by auto
  from post have "\<forall>c' post' off'. post = c' # post' \<and> session_offset c' = Some off' \<longrightarrow>
        off' = off + length (call_contents c) \<and> off \<le> off'"
    by auto
  with off show ?thesis by blast
qed

lemma ceil_chunks: "0 < C \<Longrightarrow> off < n \<Longrightarrow> Suc ((n - off - 1) div C) \<le> (n + C - 1) div (C::nat)"
proof -
  assume C: "0 < C" and lt: "off < n"
  have "(n - off - 1) div C \<le> (n - 1) div C"
    by (rule div_le_mono) simp
  moreover have "(n + C - 1) div C = Suc ((n - 1) div C)"
  proof -
    have eq: "n + C - 1 = (n - 1) + C" using lt by simp
    have "(n - 1 + C) div C = Suc ((n - 1) div C)"
      using C by (metis Suc_eq_plus1 div_add_self2 less_numeral_extra(3))
    then show ?thesis unfolding eq .
  qed
  ultimately show ?thesis by simp
qed

text \<open>
  Claim C10. \<open>uploadLoop\<close> is total (its termination is proved with the measure
  \<open>file.size - offset\<close>). Every iteration issues exactly one call, and the loop logs at
  most \<open>\<lceil>size / CHUNK_SIZE\<rceil>\<close> calls. With \<open>offset \<ge> size\<close> the loop ends at once. With
  \<open>offset < size\<close> the chunk is not empty and the iteration either issues the finish call
  and leaves the loop, or issues an append and goes on at the strictly larger offset
  \<open>offset + chunk.size\<close> (a call that throws leaves the loop with the error).
\<close>

theorem uploadLoop_bounded:
  "(\<exists>calls. fst (snd (uploadLoop dbx f tp sid off s)) = fst s @ calls \<and>
       length calls \<le> (size_of f + CHUNK_SIZE - 1) div CHUNK_SIZE) \<and>
   (size_of f \<le> off \<longrightarrow> uploadLoop dbx f tp sid off s = (Inr None, s)) \<and>
   (off < size_of f \<longrightarrow>
      slice (file_contents f) off (off + CHUNK_SIZE) \<noteq> [] \<and>
      (size_of f \<le> off + length (slice (file_contents f) off (off + CHUNK_SIZE)) \<longrightarrow>
         uploadLoop dbx f tp sid off s =
           (case invoke (FilesUploadSessionFinish \<lparr>session_id = sid, offset = off\<rparr>
                           \<lparr>path = tp, mode = add, autorename = True\<rparr>
                           (slice (file_contents f) off (off + CHUNK_SIZE)))
                   (filesUploadSessionFinish dbx \<lparr>session_id = sid, offset = off\<rparr>
                           \<lparr>path = tp, mode = add, autorename = True\<rparr>
                           (slice (file_contents f) off (off + CHUNK_SIZE))) s of
              (Inl e, s') \<Rightarrow> (Inl e, s')
            | (Inr r, s') \<Rightarrow> (Inr (Some r), s'))) \<and>
      (off + length (slice (file_contents f) off (off + CHUNK_SIZE)) < size_of f \<longrightarrow>
         off < off + length (slice (file_contents f) off (off + CHUNK_SIZE)) \<and>
         uploadLoop dbx f tp sid off s =
           (case invoke (FilesUploadSessionAppendV2 \<lparr>session_id = sid, offset = off\<rparr> False
                           (slice (file_contents f) off (off + CHUNK_SIZE)))
                   (filesUploadSessionAppendV2 dbx \<lparr>session_id = sid, offset = off\<rparr> False
                           (slice (file_contents f) off (off + CHUNK_SIZE))) s of
              (Inl e, s') \<Rightarrow> (Inl e, s')
            | (Inr u, s') \<Rightarrow>
                uploadLoop dbx f tp sid
                  (off + length (slice (file_contents f) off (off + CHUNK_SIZE))) s')))"
proof (intro conjI impI)
  show "\<exists>calls. fst (snd (uploadLoop dbx f tp sid off s)) = fst s @ calls \<and>
       length calls \<le> (size_of f + CHUNK_SIZE - 1) div CHUNK_SIZE"
  proof (cases "off < size_of f")
    case True
    from uploadLoop_prefix[OF True refl, of dbx tp sid s]
    obtain calls rest where log: "fst (snd (uploadLoop dbx f tp sid off s)) = fst s @ calls"
      and plan: "session_plan f tp sid off = calls @ rest"
      by blast
    have "length calls \<le> length (session_plan f tp sid off)"
      unfolding plan by simp
    also have "\<dots> = Suc ((size_of f - off - 1) div CHUNK_SIZE)"
      by (simp add: session_plan_def)
    also have "\<dots> \<le> (size_of f + CHUNK_SIZE - 1) div CHUNK_SIZE"
      using CHUNK_SIZE_pos True by (rule ceil_chunks)
    finally show ?thesis using log by blast
  next
    case False
    then have "uploadLoop dbx f tp sid off s = (Inr None, s)"
      by (subst uploadLoop.simps) simp
    then show ?thesis by simp
  qed
next
  assume "size_of f \<le> off"
  then show "uploadLoop dbx f tp sid off s = (Inr None, s)"
    by (subst uploadLoop.simps) simp
next
  assume "off < size_of f"
  then show "slice (file_contents f) off (off + CHUNK_SIZE) \<noteq> []"
    using CHUNK_SIZE_pos by (simp add: slice_def size_of_def)
next
  assume "off < size_of f"
    and "size_of f \<le> off + length (slice (file_contents f) off (off + CHUNK_SIZE))"
  then show "uploadLoop dbx f tp sid off s =
           (case invoke (FilesUploadSessionFinish \<lparr>session_id = sid, offset = off\<rparr>
                           \<lparr>path = tp, mode = add, autorename = True\<rparr>
                           (slice (file_contents f) off (off + CHUNK_SIZE)))
                   (filesUploadSessionFinish dbx \<lparr>session_id = sid, offset = off\<rparr>
                           \<lparr>path = tp, mode = add, autorename = True\<rparr>
                           (slice (file_contents f) off (off + CHUNK_SIZE))) s of
              (Inl e, s') \<Rightarrow> (Inl e, s')
            | (Inr r, s') \<Rightarrow> (Inr (Some r), s'))"
    by (subst uploadLoop.simps) (simp add: Let_def)
next
  assume "off < size_of f"
  then show "off < off + length (slice (file_contents f) off (off + CHUNK_SIZE))"
    using CHUNK_SIZE_pos by (simp add: length_slice size_of_def)
next
  assume "off < size_of f"
    and "off + length (slice (file_contents f) off (off + CHUNK_SIZE)) < size_of f"
  then show "uploadLoop dbx f tp sid off s =
           (case invoke (FilesUploadSessionAppendV2 \<lparr>session_id = sid, offset = off\<rparr> False
                           (slice (file_contents f) off (off + CHUNK_SIZE)))
                   (filesUploadSessionAppendV2 dbx \<lparr>session_id = sid, offset = off\<rparr> False
                           (slice (file_contents f) off (off + CHUNK_SIZE))) s of
              (Inl e, s') \<Rightarrow> (Inl e, s')
            | (Inr u, s') \<Rightarrow>
                uploadLoop dbx f tp sid
                  (off + length (slice (file_contents f) off (off + CHUNK_SIZE))) s')"
    by (subst uploadLoop.simps) (simp add: Let_def)
qed

lemma chunks_multiple: "0 < C \<Longrightarrow> 2 \<le> k \<Longrightarrow> (k * C - C - 1) div C = k - (2::nat)"
proof -
  assume C: "0 < C" and k: "2 \<le> k"
  then obtain j where j: "k = Suc (Suc j)" by (metis add_2_eq_Suc le_Suc_ex)
  have "k * C - C - 1 = j * C + (C - 1)" using C unfolding j by simp
  moreover have "(j * C + (C - 1)) div C = j + (C - 1) div C"
    by (rule div_mult_self3) (use C in simp)
  moreover have "(C - 1) div C = 0" using C by simp
  ultimately show ?thesis unfolding j by simp
qed

lemma chunks_plus_one: "0 < C \<Longrightarrow> 1 \<le> k \<Longrightarrow> (k * C + 1 - C - 1) div C = k - (1::nat)"
proof -
  assume C: "0 < C" and k: "1 \<le> k"
  then obtain j where j: "k = Suc j" by (metis Suc_le_D One_nat_def)
  have "k * C + 1 - C - 1 = j * C" unfolding j by simp
  then show ?thesis using C unfolding j by simp
qed

lemma slice_full_chunk: "off + C \<le> length b \<Longrightarrow> length (slice b off (off + C)) = C"
  by (simp add: length_slice)

lemma chunk_within: "i + 2 \<le> k \<Longrightarrow> C + i * C + C \<le> k * (C::nat)"
proof -
  assume "i + 2 \<le> k"
  then have "(i + 2) * C \<le> k * C" by (rule mult_le_mono1)
  then show ?thesis by (simp add: algebra_simps)
qed

text \<open>
  Claim C3, amended. A payload of \<open>k * CHUNK_SIZE\<close> bytes reaches the session branch only
  for \<open>k \<ge> 3\<close> (\<open>CHUNK_SIZE\<close> is 64 MiB, the threshold 150 MiB). Then, against a remote
  that accepts every call, \<open>uploadFile\<close> issues exactly \<open>k\<close> calls: one start, \<open>k - 2\<close>
  appends, one finish, each carrying exactly \<open>CHUNK_SIZE\<close> bytes. For \<open>k \<le> 2\<close> it issues a
  single one-shot upload of the whole payload.
\<close>

theorem uploadFile_chunk_multiple:
  assumes acc: "accepts_session dbx"
    and size: "size_of f = k * CHUNK_SIZE"
    and st: "filesUploadSessionStart dbx False (slice (file_contents f) 0 CHUNK_SIZE) w = (Inr sid, w1)"
  shows "(3 \<le> k \<longrightarrow>
      (\<exists>r w'. uploadFile dbx pth f ([], w) =
         (Inr (Some r),
          FilesUploadSessionStart False (slice (file_contents f) 0 CHUNK_SIZE)
          # map (\<lambda>i. FilesUploadSessionAppendV2
                      \<lparr>session_id = sid, offset = CHUNK_SIZE + i * CHUNK_SIZE\<rparr> False
                      (slice (file_contents f) (CHUNK_SIZE + i * CHUNK_SIZE)
                         (CHUNK_SIZE + i * CHUNK_SIZE + CHUNK_SIZE))) [0..<k - 2]
          @ [FilesUploadSessionFinish
               \<lparr>session_id = sid, offset = CHUNK_SIZE + (k - 2) * CHUNK_SIZE\<rparr>
               \<lparr>path = pth @ ''/'' @ file_name f, mode = add, autorename = True\<rparr>
               (slice (file_contents f) (CHUNK_SIZE + (k - 2) * CHUNK_SIZE)
                  (CHUNK_SIZE + (k - 2) * CHUNK_SIZE + CHUNK_SIZE))], w')) \<and>
      length (fst (snd (uploadFile dbx pth f ([], w)))) = k \<and>
      (\<forall>c\<in>set (fst (snd (uploadFile dbx pth f ([], w)))).
          length (call_contents c) = CHUNK_SIZE)) \<and>
    (k \<le> 2 \<longrightarrow>
      fst (snd (uploadFile dbx pth f ([], w))) =
        [FilesUpload \<lparr>path = pth @ ''/'' @ file_name f, mode = add, autorename = True\<rparr>
           (file_contents f)])"
proof (intro conjI impI)
  assume "k \<le> 2"
  then have "k * CHUNK_SIZE \<le> 2 * CHUNK_SIZE" by (rule mult_le_mono1)
  then have "size_of f \<le> 150 * 1024 * 1024" unfolding size by (simp add: CHUNK_SIZE_def)
  then show "fst (snd (uploadFile dbx pth f ([], w))) =
        [FilesUpload \<lparr>path = pth @ ''/'' @ file_name f, mode = add, autorename = True\<rparr>
           (file_contents f)]"
    using uploadFile_small_log[of f dbx pth "[]" w] by simp
next
  assume k: "3 \<le> k"
  then have "3 * CHUNK_SIZE \<le> k * CHUNK_SIZE" by (rule mult_le_mono1)
  then have big: "150 * 1024 * 1024 < size_of f" unfolding size by (simp add: CHUNK_SIZE_def)
  have m: "(size_of f - CHUNK_SIZE - 1) div CHUNK_SIZE = k - 2"
    unfolding size using CHUNK_SIZE_pos k by (intro chunks_multiple) simp_all
  from uploadFile_accepted[OF acc big st, of pth]
  obtain r w' where run: "uploadFile dbx pth f ([], w) =
     (Inr (Some r),
      FilesUploadSessionStart False (slice (file_contents f) 0 CHUNK_SIZE)
        # session_plan f (pth @ ''/'' @ file_name f) sid CHUNK_SIZE, w')"
    by blast
  show "\<exists>r w'. uploadFile dbx pth f ([], w) =
         (Inr (Some r),
          FilesUploadSessionStart False (slice (file_contents f) 0 CHUNK_SIZE)
          # map (\<lambda>i. FilesUploadSessionAppendV2
                      \<lparr>session_id = sid, offset = CHUNK_SIZE + i * CHUNK_SIZE\<rparr> False
                      (slice (file_contents f) (CHUNK_SIZE + i * CHUNK_SIZE)
                         (CHUNK_SIZE + i * CHUNK_SIZE + CHUNK_SIZE))) [0..<k - 2]
          @ [FilesUploadSessionFinish
               \<lparr>session_id = sid, offset = CHUNK_SIZE + (k - 2) * CHUNK_SIZE\<rparr>
               \<lparr>path = pth @ ''/'' @ file_name f, mode = add, autorename = True\<rparr>
               (slice (file_contents f) (CHUNK_SIZE + (k - 2) * CHUNK_SIZE)
                  (CHUNK_SIZE + (k - 2) * CHUNK_SIZE + CHUNK_SIZE))], w')"
    unfolding run session_plan_def m by simp
  show "length (fst (snd (uploadFile dbx pth f ([], w)))) = k"
    unfolding run session_plan_def m using k by simp
  have first: "length (slice (file_contents f) 0 CHUNK_SIZE) = CHUNK_SIZE"
    using big by (simp add: length_slice size_of_def CHUNK_SIZE_def)
  have chunk: "length (slice (file_contents f) (CHUNK_SIZE + i * CHUNK_SIZE)
                  (CHUNK_SIZE + i * CHUNK_SIZE + CHUNK_SIZE)) = CHUNK_SIZE" if "i + 2 \<le> k" for i
  proof (rule slice_full_chunk)
    show "CHUNK_SIZE + i * CHUNK_SIZE + CHUNK_SIZE \<le> length (file_contents f)"
      using chunk_within[OF that, of CHUNK_SIZE] size by (simp add: size_of_def)
  qed
  have last: "length (slice (file_contents f) (CHUNK_SIZE + (k - 2) * CHUNK_SIZE)
                  (CHUNK_SIZE + (k - 2) * CHUNK_SIZE + CHUNK_SIZE)) = CHUNK_SIZE"
    using k by (intro chunk) simp
  show "\<forall>c\<in>set (fst (snd (uploadFile dbx pth f ([], w)))). length (call_contents c) = CHUNK_SIZE"
    unfolding run session_plan_def m using first last chunk by auto
qed

text \<open>
  Claim C8, amended. A payload of \<open>CHUNK_SIZE + 1\<close> bytes is below the threshold and is
  sent by one one-shot upload. Above the threshold, a payload of \<open>k * CHUNK_SIZE + 1\<close>
  bytes (\<open>k \<ge> 3\<close>), against a remote that accepts every call, gives a start with
  \<open>CHUNK_SIZE\<close> bytes, \<open>k - 1\<close> appends and a finish at offset \<open>k * CHUNK_SIZE\<close> that
  carries one byte.
\<close>

theorem uploadFile_chunk_plus_one:
  "(size_of f = CHUNK_SIZE + 1 \<longrightarrow>
      fst (snd (uploadFile dbx pth f ([], w))) =
        [FilesUpload \<lparr>path = pth @ ''/'' @ file_name f, mode = add, autorename = True\<rparr>
           (file_contents f)]) \<and>
   (accepts_session dbx \<and> 3 \<le> k \<and> size_of f = k * CHUNK_SIZE + 1 \<and>
    filesUploadSessionStart dbx False (slice (file_contents f) 0 CHUNK_SIZE) w = (Inr sid, w1) \<longrightarrow>
      (\<exists>r w'. uploadFile dbx pth f ([], w) =
         (Inr (Some r),
          FilesUploadSessionStart False (slice (file_contents f) 0 CHUNK_SIZE)
          # map (\<lambda>i. FilesUploadSessionAppendV2
                      \<lparr>session_id = sid, offset = CHUNK_SIZE + i * CHUNK_SIZE\<rparr> False
                      (slice (file_contents f) (CHUNK_SIZE + i * CHUNK_SIZE)
                         (CHUNK_SIZE + i * CHUNK_SIZE + CHUNK_SIZE))) [0..<k - 1]
          @ [FilesUploadSessionFinish
               \<lparr>session_id = sid, offset = CHUNK_SIZE + (k - 1) * CHUNK_SIZE\<rparr>
               \<lparr>path = pth @ ''/'' @ file_name f, mode = add, autorename = True\<rparr>
               (slice (file_contents f) (CHUNK_SIZE + (k - 1) * CHUNK_SIZE)
                  (CHUNK_SIZE + (k - 1) * CHUNK_SIZE + CHUNK_SIZE))], w')) \<and>
      length (slice (file_contents f) 0 CHUNK_SIZE) = CHUNK_SIZE \<and>
      length (slice (file_contents f) (CHUNK_SIZE + (k - 1) * CHUNK_SIZE)
                  (CHUNK_SIZE + (k - 1) * CHUNK_SIZE + CHUNK_SIZE)) = 1)"
proof (intro conjI impI)
  assume "size_of f = CHUNK_SIZE + 1"
  then have "size_of f \<le> 150 * 1024 * 1024" by (simp add: CHUNK_SIZE_def)
  then show "fst (snd (uploadFile dbx pth f ([], w))) =
        [FilesUpload \<lparr>path = pth @ ''/'' @ file_name f, mode = add, autorename = True\<rparr>
           (file_contents f)]"
    using uploadFile_small_log[of f dbx pth "[]" w] by simp
next
  assume a: "accepts_session dbx \<and> 3 \<le> k \<and> size_of f = k * CHUNK_SIZE + 1 \<and>
    filesUploadSessionStart dbx False (slice (file_contents f) 0 CHUNK_SIZE) w = (Inr sid, w1)"
  then have acc: "accepts_session dbx" and k: "3 \<le> k" and size: "size_of f = k * CHUNK_SIZE + 1"
    and st: "filesUploadSessionStart dbx False (slice (file_contents f) 0 CHUNK_SIZE) w = (Inr sid, w1)"
    by simp_all
  from k have "3 * CHUNK_SIZE \<le> k * CHUNK_SIZE" by (rule mult_le_mono1)
  then have big: "150 * 1024 * 1024 < size_of f" unfolding size by (simp add: CHUNK_SIZE_def)
  have m: "(size_of f - CHUNK_SIZE - 1) div CHUNK_SIZE = k - 1"
    unfolding size using CHUNK_SIZE_pos k by (intro chunks_plus_one) simp_all
  from uploadFile_accepted[OF acc big st, of pth]
  obtain r w' where run: "uploadFile dbx pth f ([], w) =
     (Inr (Some r),
      FilesUploadSessionStart False (slice (file_contents f) 0 CHUNK_SIZE)
        # session_plan f (pth @ ''/'' @ file_name f) sid CHUNK_SIZE, w')"
    by blast
  show "\<exists>r w'. uploadFile dbx pth f ([], w) =
         (Inr (Some r),
          FilesUploadSessionStart False (slice (file_contents f) 0 CHUNK_SIZE)
          # map (\<lambda>i. FilesUploadSessionAppendV2
                      \<lparr>session_id = sid, offset = CHUNK_SIZE + i * CHUNK_SIZE\<rparr> False
                      (slice (file_contents f) (CHUNK_SIZE + i * CHUNK_SIZE)
                         (CHUNK_SIZE + i * CHUNK_SIZE + CHUNK_SIZE))) [0..<k - 1]
          @ [FilesUploadSessionFinish
               \<lparr>session_id = sid, offset = CHUNK_SIZE + (k - 1) * CHUNK_SIZE\<rparr>
               \<lparr>path = pth @ ''/'' @ file_name f, mode = add, autorename = True\<rparr>
               (slice (file_contents f) (CHUNK_SIZE + (k - 1) * CHUNK_SIZE)
                  (CHUNK_SIZE + (k - 1) * CHUNK_SIZE + CHUNK_SIZE))], w')"
    unfolding run session_plan_def m by simp
  show "length (slice (file_contents f) 0 CHUNK_SIZE) = CHUNK_SIZE"
    using big by (simp add: length_slice size_of_def CHUNK_SIZE_def)
  have "CHUNK_SIZE + (k - 1) * CHUNK_SIZE = k * CHUNK_SIZE"
    using k by (cases k) simp_all
  then show "length (slice (file_contents f) (CHUNK_SIZE + (k - 1) * CHUNK_SIZE)
                  (CHUNK_SIZE + (k - 1) * CHUNK_SIZE + CHUNK_SIZE)) = 1"
    using size CHUNK_SIZE_pos by (simp add: length_slice size_of_def)
qed

lemma slice_zeros:
  "slice (file_contents (zeros_file n)) a b = replicate (min b n - a) 0"
  by (simp add: slice_def zeros_file_def min.commute)

lemma start_accepting_remote:
  "filesUploadSessionStart accepting_remote cl b w = (Inr ''session-1'', Suc w)"
  by (simp add: accepting_remote_def)

theorem uploadFile_chunk_multiple_witness:
  "accepts_session accepting_remote \<and>
   size_of (zeros_file (3 * CHUNK_SIZE)) = 3 * CHUNK_SIZE \<and>
   (\<exists>r w'. uploadFile accepting_remote ''/docs'' (zeros_file (3 * CHUNK_SIZE)) ([], 0) =
      (Inr (Some r),
       [FilesUploadSessionStart False (replicate CHUNK_SIZE 0),
        FilesUploadSessionAppendV2 \<lparr>session_id = ''session-1'', offset = CHUNK_SIZE\<rparr> False
          (replicate CHUNK_SIZE 0),
        FilesUploadSessionFinish \<lparr>session_id = ''session-1'', offset = 2 * CHUNK_SIZE\<rparr>
          \<lparr>path = ''/docs/data.bin'', mode = add, autorename = True\<rparr>
          (replicate CHUNK_SIZE 0)], w')) \<and>
   length (fst (snd (uploadFile accepting_remote ''/docs'' (zeros_file (3 * CHUNK_SIZE)) ([], 0)))) = 3 \<and>
   fst (snd (uploadFile accepting_remote ''/docs'' (zeros_file (2 * CHUNK_SIZE)) ([], 0))) =
     [FilesUpload \<lparr>path = ''/docs/data.bin'', mode = add, autorename = True\<rparr>
        (replicate (2 * CHUNK_SIZE) 0)]"
proof -
  have three: "(3::nat) \<le> 3" and two: "(2::nat) \<le> 2" by simp_all
  note t3 = uploadFile_chunk_multiple[where k = 3 and w = 0 and pth = "''/docs''",
      OF accepts_session_accepting_remote size_of_zeros_file start_accepting_remote]
  note t2 = uploadFile_chunk_multiple[where k = 2 and w = 0 and pth = "''/docs''",
      OF accepts_session_accepting_remote size_of_zeros_file start_accepting_remote]
  have name: "file_name (zeros_file n) = ''data.bin''" for n by (simp add: zeros_file_def)
  have cont: "file_contents (zeros_file n) = replicate n 0" for n by (simp add: zeros_file_def)
  from t3 three have a: "\<exists>r w'. uploadFile accepting_remote ''/docs'' (zeros_file (3 * CHUNK_SIZE)) ([], 0) =
      (Inr (Some r),
       [FilesUploadSessionStart False (replicate CHUNK_SIZE 0),
        FilesUploadSessionAppendV2 \<lparr>session_id = ''session-1'', offset = CHUNK_SIZE\<rparr> False
          (replicate CHUNK_SIZE 0),
        FilesUploadSessionFinish \<lparr>session_id = ''session-1'', offset = 2 * CHUNK_SIZE\<rparr>
          \<lparr>path = ''/docs/data.bin'', mode = add, autorename = True\<rparr>
          (replicate CHUNK_SIZE 0)], w')"
    by (simp add: slice_zeros name upt_rec CHUNK_SIZE_def)
  from t3 three have b: "length (fst (snd (uploadFile accepting_remote ''/docs''
      (zeros_file (3 * CHUNK_SIZE)) ([], 0)))) = 3"
    by blast
  from t2 two have c: "fst (snd (uploadFile accepting_remote ''/docs'' (zeros_file (2 * CHUNK_SIZE)) ([], 0))) =
     [FilesUpload \<lparr>path = ''/docs/data.bin'', mode = add, autorename = True\<rparr>
        (replicate (2 * CHUNK_SIZE) 0)]"
    by (simp add: name cont)
  from a b c show ?thesis
    using accepts_session_accepting_remote size_of_zeros_file by blast
qed

text \<open>
  Claim C3 as stated fails at \<open>k = 1\<close>: a payload of exactly \<open>CHUNK_SIZE\<close> bytes is sent by
  one \<open>filesUpload\<close> call; no session is started or finished.
\<close>

theorem uploadFile_one_chunk_counterexample:
  "fst (snd (uploadFile accepting_remote ''/docs'' (zeros_file CHUNK_SIZE) ([], 0))) =
     [FilesUpload \<lparr>path = ''/docs/data.bin'', mode = add, autorename = True\<rparr>
        (replicate CHUNK_SIZE 0)]"
proof -
  have "size_of (zeros_file CHUNK_SIZE) \<le> 150 * 1024 * 1024"
    by (simp add: size_of_zeros_file CHUNK_SIZE_def)
  from uploadFile_small_log[OF this, of accepting_remote "''/docs''" "[]" 0]
  show ?thesis by (simp add: zeros_file_def)
qed

text \<open>
  Claim C8 as stated fails: a payload of \<open>CHUNK_SIZE + 1\<close> bytes is sent by one
  \<open>filesUpload\<close> call, not by a start and a finish.
\<close>

theorem uploadFile_chunk_plus_one_counterexample:
  "fst (snd (uploadFile accepting_remote ''/docs'' (zeros_file (CHUNK_SIZE + 1)) ([], 0))) =
     [FilesUpload \<lparr>path = ''/docs/data.bin'', mode = add, autorename = True\<rparr>
        (replicate (CHUNK_SIZE + 1) 0)]"
proof -
  have "size_of (zeros_file (CHUNK_SIZE + 1)) \<le> 150 * 1024 * 1024"
    by (simp add: size_of_zeros_file CHUNK_SIZE_def)
  from uploadFile_small_log[OF this, of accepting_remote "''/docs''" "[]" 0]
  show ?thesis by (simp add: zeros_file_def)
qed

theorem uploadFile_chunk_plus_one_witness:
  "size_of (zeros_file (CHUNK_SIZE + 1)) = CHUNK_SIZE + 1 \<and>
   fst (snd (uploadFile accepting_remote ''/docs'' (zeros_file (CHUNK_SIZE + 1)) ([], 0))) =
     [FilesUpload \<lparr>path = ''/docs/data.bin'', mode = add, autorename = True\<rparr>
        (replicate (CHUNK_SIZE + 1) 0)] \<and>
   accepts_session accepting_remote \<and>
   size_of (zeros_file (3 * CHUNK_SIZE + 1)) = 3 * CHUNK_SIZE + 1 \<and>
   (\<exists>r w'. uploadFile accepting_remote ''/docs'' (zeros_file (3 * CHUNK_SIZE + 1)) ([], 0) =
      (Inr (Some r),
       [FilesUploadSessionStart False (replicate CHUNK_SIZE 0),
        FilesUploadSessionAppendV2 \<lparr>session_id = ''session-1'', offset = CHUNK_SIZE\<rparr> False
          (replicate CHUNK_SIZE 0),
        FilesUploadSessionAppendV2 \<lparr>session_id = ''session-1'', offset = 2 * CHUNK_SIZE\<rparr> False
          (replicate CHUNK_SIZE 0),
        FilesUploadSessionFinish \<lparr>session_id = ''session-1'', offset = 3 * CHUNK_SIZE\<rparr>
          \<lparr>path = ''/docs/data.bin'', mode = add, autorename = True\<rparr> [0]], w'))"
proof -
  have name: "file_name (zeros_file n) = ''data.bin''" for n by (simp add: zeros_file_def)
  have cont: "file_contents (zeros_file n) = replicate n 0" for n by (simp add: zeros_file_def)
  note t = uploadFile_chunk_plus_one[of "zeros_file (CHUNK_SIZE + 1)" accepting_remote "''/docs''" 0]
  have a: "fst (snd (uploadFile accepting_remote ''/docs'' (zeros_file (CHUNK_SIZE + 1)) ([], 0))) =
     [FilesUpload \<lparr>path = ''/docs/data.bin'', mode = add, autorename = True\<rparr>
        (replicate (CHUNK_SIZE + 1) 0)]"
    using t by (simp add: size_of_zeros_file name cont)
  have hyp: "accepts_session accepting_remote \<and> (3::nat) \<le> 3 \<and>
    size_of (zeros_file (3 * CHUNK_SIZE + 1)) = 3 * CHUNK_SIZE + 1 \<and>
    filesUploadSessionStart accepting_remote False
      (slice (file_contents (zeros_file (3 * CHUNK_SIZE + 1))) 0 CHUNK_SIZE) 0 = (Inr ''session-1'', Suc 0)"
    by (simp add: accepts_session_accepting_remote size_of_zeros_file start_accepting_remote)
  from uploadFile_chunk_plus_one[of "zeros_file (3 * CHUNK_SIZE + 1)" accepting_remote "''/docs''" 0
      3 "''session-1''" "Suc 0"] hyp
  have b: "\<exists>r w'. uploadFile accepting_remote ''/docs'' (zeros_file (3 * CHUNK_SIZE + 1)) ([], 0) =
      (Inr (Some r),
       [FilesUploadSessionStart False (replicate CHUNK_SIZE 0),
        FilesUploadSessionAppendV2 \<lparr>session_id = ''session-1'', offset = CHUNK_SIZE\<rparr> False
          (replicate CHUNK_SIZE 0),
        FilesUploadSessionAppendV2 \<lparr>session_id = ''session-1'', offset = 2 * CHUNK_SIZE\<rparr> False
          (replicate CHUNK_SIZE 0),
        FilesUploadSessionFinish \<lparr>session_id = ''session-1'', offset = 3 * CHUNK_SIZE\<rparr>
          \<lparr>path = ''/docs/data.bin'', mode = add, autorename = True\<rparr> [0]], w')"
    by (simp add: slice_zeros name upt_rec CHUNK_SIZE_def)
  from a b show ?thesis
    using accepts_session_accepting_remote size_of_zeros_file by blast
qed

lemma file_name_zeros: "file_name (zeros_file n) = ''data.bin''"
  by (simp add: zeros_file_def)

theorem session_offsets_sequential_witness:
  "fst (snd (uploadFile accepting_remote ''/docs'' (zeros_file (150 * 1024 * 1024 + 1)) ([], 0))) =
     [FilesUploadSessionStart False (replicate CHUNK_SIZE 0)]
     @ FilesUploadSessionAppendV2 \<lparr>session_id = ''session-1'', offset = CHUNK_SIZE\<rparr> False
         (replicate CHUNK_SIZE 0)
     # [FilesUploadSessionFinish \<lparr>session_id = ''session-1'', offset = 2 * CHUNK_SIZE\<rparr>
          \<lparr>path = ''/docs/data.bin'', mode = add, autorename = True\<rparr>
          (replicate (150 * 1024 * 1024 + 1 - 2 * CHUNK_SIZE) 0)] \<and>
   session_offset (FilesUploadSessionAppendV2 \<lparr>session_id = ''session-1'', offset = CHUNK_SIZE\<rparr>
       False (replicate CHUNK_SIZE 0)) = Some CHUNK_SIZE \<and>
   CHUNK_SIZE = bytes_sent [FilesUploadSessionStart False (replicate CHUNK_SIZE 0)] \<and>
   2 * CHUNK_SIZE = CHUNK_SIZE + length (call_contents
       (FilesUploadSessionAppendV2 \<lparr>session_id = ''session-1'', offset = CHUNK_SIZE\<rparr>
          False (replicate CHUNK_SIZE 0)))"
proof -
  let ?big = "zeros_file (150 * 1024 * 1024 + 1)"
  let ?start = "FilesUploadSessionStart False (replicate CHUNK_SIZE 0)"
  let ?app = "FilesUploadSessionAppendV2 \<lparr>session_id = ''session-1'', offset = CHUNK_SIZE\<rparr> False
         (replicate CHUNK_SIZE 0)"
  let ?fin = "FilesUploadSessionFinish \<lparr>session_id = ''session-1'', offset = 2 * CHUNK_SIZE\<rparr>
          \<lparr>path = ''/docs/data.bin'', mode = add, autorename = True\<rparr>
          (replicate (150 * 1024 * 1024 + 1 - 2 * CHUNK_SIZE) 0)"
  have b: "150 * 1024 * 1024 < size_of ?big" by (simp add: size_of_zeros_file)
  from uploadFile_accepted[OF accepts_session_accepting_remote b start_accepting_remote, of "''/docs''" 0]
  have log: "fst (snd (uploadFile accepting_remote ''/docs'' ?big ([], 0))) = [?start] @ ?app # [?fin]"
    by (auto simp: session_plan_def size_of_zeros_file slice_zeros file_name_zeros upt_rec CHUNK_SIZE_def)
  have off: "session_offset ?app = Some CHUNK_SIZE" by simp
  from session_offsets_sequential[OF log off]
  have "CHUNK_SIZE = bytes_sent [?start]"
    and "2 * CHUNK_SIZE = CHUNK_SIZE + length (call_contents ?app)"
    by simp_all
  with log off show ?thesis by blast
qed

theorem uploadLoop_bounded_witness:
  "(\<exists>calls. fst (snd (uploadLoop accepting_remote (zeros_file (150 * 1024 * 1024 + 1))
        ''/docs/data.bin'' ''session-1'' CHUNK_SIZE ([], 0))) = calls \<and> length calls \<le> 3) \<and>
   uploadLoop accepting_remote (zeros_file (150 * 1024 * 1024 + 1))
        ''/docs/data.bin'' ''session-1'' (150 * 1024 * 1024 + 1) ([], 0) = (Inr None, ([], 0)) \<and>
   uploadLoop accepting_remote (zeros_file (150 * 1024 * 1024 + 1))
        ''/docs/data.bin'' ''session-1'' (2 * CHUNK_SIZE) ([], 0) =
     (Inr (Some \<lparr>tag = File, name = ''/docs/data.bin'', path_lower = ''/docs/data.bin'', rev = ''r1''\<rparr>),
      ([FilesUploadSessionFinish \<lparr>session_id = ''session-1'', offset = 2 * CHUNK_SIZE\<rparr>
          \<lparr>path = ''/docs/data.bin'', mode = add, autorename = True\<rparr>
          (replicate (150 * 1024 * 1024 + 1 - 2 * CHUNK_SIZE) 0)], 1)) \<and>
   uploadLoop accepting_remote (zeros_file (150 * 1024 * 1024 + 1))
        ''/docs/data.bin'' ''session-1'' CHUNK_SIZE ([], 0) =
     uploadLoop accepting_remote (zeros_file (150 * 1024 * 1024 + 1))
        ''/docs/data.bin'' ''session-1'' (2 * CHUNK_SIZE)
        ([FilesUploadSessionAppendV2 \<lparr>session_id = ''session-1'', offset = CHUNK_SIZE\<rparr> False
            (replicate CHUNK_SIZE 0)], 1)"
proof -
  let ?big = "zeros_file (150 * 1024 * 1024 + 1)"
  note t = uploadLoop_bounded[of accepting_remote ?big "''/docs/data.bin''" "''session-1''" _ "([], 0)"]
  have a: "\<exists>calls. fst (snd (uploadLoop accepting_remote ?big
        ''/docs/data.bin'' ''session-1'' CHUNK_SIZE ([], 0))) = calls \<and> length calls \<le> 3"
    using t[of CHUNK_SIZE] by (simp add: size_of_zeros_file CHUNK_SIZE_def)
  have b: "uploadLoop accepting_remote ?big
        ''/docs/data.bin'' ''session-1'' (150 * 1024 * 1024 + 1) ([], 0) = (Inr None, ([], 0))"
    using t[of "150 * 1024 * 1024 + 1"] by (simp add: size_of_zeros_file)
  have c: "uploadLoop accepting_remote ?big
        ''/docs/data.bin'' ''session-1'' (2 * CHUNK_SIZE) ([], 0) =
     (Inr (Some \<lparr>tag = File, name = ''/docs/data.bin'', path_lower = ''/docs/data.bin'', rev = ''r1''\<rparr>),
      ([FilesUploadSessionFinish \<lparr>session_id = ''session-1'', offset = 2 * CHUNK_SIZE\<rparr>
          \<lparr>path = ''/docs/data.bin'', mode = add, autorename = True\<rparr>
          (replicate (150 * 1024 * 1024 + 1 - 2 * CHUNK_SIZE) 0)], 1))"
    using t[of "2 * CHUNK_SIZE"]
    by (simp add: size_of_zeros_file slice_zeros CHUNK_SIZE_def invoke_def accepting_remote_def)
  have d: "uploadLoop accepting_remote ?big
        ''/docs/data.bin'' ''session-1'' CHUNK_SIZE ([], 0) =
     uploadLoop accepting_remote ?big
        ''/docs/data.bin'' ''session-1'' (2 * CHUNK_SIZE)
        ([FilesUploadSessionAppendV2 \<lparr>session_id = ''session-1'', offset = CHUNK_SIZE\<rparr> False
            (replicate CHUNK_SIZE 0)], 1)"
    using t[of CHUNK_SIZE]
    by (simp add: size_of_zeros_file slice_zeros CHUNK_SIZE_def invoke_def accepting_remote_def)
  from a b c d show ?thesis by blast
qed

section \<open>Listing a folder\<close>

lemma continueLoop_serves:
  "serves dbx p ps w w' \<Longrightarrow>
   continueLoop dbx acc p (tr, w) =
     Some (Inr (acc @ concat (map entries ps), last (p # ps)),
           (tr @ map (\<lambda>q. FilesListFolderContinue (cursor q)) (butlast (p # ps)), w'))"
proof (induction ps arbitrary: p acc tr w)
  case Nil
  then show ?case by (subst continueLoop.simps) simp
next
  case (Cons q qs)
  from Cons.prems obtain w1 where more: "has_more p"
    and step: "filesListFolderContinue dbx (cursor p) w = (Inr q, w1)"
    and rest: "serves dbx q qs w1 w'"
    by (auto split: prod.splits sum.splits)
  show ?case
    apply (subst continueLoop.simps)
    using more step Cons.IH[OF rest, of "acc @ entries q" "tr @ [FilesListFolderContinue (cursor p)]"]
    by (simp add: invoke_def)
qed

lemma mset_insort_by: "mset (insort_by cmp x xs) = add_mset x (mset xs)"
  by (induction xs) auto

lemma mset_array_sort: "mset (array_sort cmp xs) = mset xs"
  by (induction xs) (auto simp: array_sort_def mset_insort_by)

lemma set_insort_by: "set (insort_by cmp x xs) = insert x (set xs)"
  by (induction xs) auto

lemma sorted_insort_by:
  assumes "consistent_comparator cmp" and "sorted_wrt (\<lambda>a b. cmp a b \<le> 0) xs"
  shows "sorted_wrt (\<lambda>a b. cmp a b \<le> 0) (insort_by cmp x xs)"
  using assms(2)
proof (induction xs)
  case Nil
  then show ?case by simp
next
  case (Cons y ys)
  from assms(1) have total: "\<And>a b. \<not> cmp a b \<le> 0 \<Longrightarrow> cmp b a \<le> 0"
    and trans: "\<And>a b c. cmp a b \<le> 0 \<Longrightarrow> cmp b c \<le> 0 \<Longrightarrow> cmp a c \<le> 0"
    unfolding consistent_comparator_def by blast+
  show ?case
  proof (cases "cmp x y \<le> 0")
    case True
    with Cons.prems trans show ?thesis by auto
  next
    case False
    then have "cmp y x \<le> 0" by (rule total)
    with False Cons show ?thesis by (auto simp: set_insort_by)
  qed
qed

lemma sorted_array_sort:
  "consistent_comparator cmp \<Longrightarrow> sorted_wrt (\<lambda>a b. cmp a b \<le> 0) (array_sort cmp xs)"
  by (induction xs) (auto simp: array_sort_def intro: sorted_insort_by)

lemma continueLoop_Some:
  assumes run: "continueLoop dbx0 acc0 p0 s0 = Some y0"
  shows "\<forall>all q s'. y0 = (Inr (all, q), s') \<longrightarrow>
     (\<exists>ps. serves dbx0 p0 ps (snd s0) (snd s') \<and> all = acc0 @ concat (map entries ps) \<and>
          q = last (p0 # ps))"
proof (rule continueLoop.raw_induct[where P = "\<lambda>dbx acc p s y.
    \<forall>all q s'. y = (Inr (all, q), s') \<longrightarrow>
     (\<exists>ps. serves dbx p ps (snd s) (snd s') \<and> all = acc @ concat (map entries ps) \<and>
          q = last (p # ps))", OF _ run])
  fix loop :: "'a dropbox \<Rightarrow> entry list \<Rightarrow> list_folder_result \<Rightarrow> 'a net
     \<Rightarrow> ((error + entry list \<times> list_folder_result) \<times> 'a net) option"
  fix dbx acc p s y
  assume IH: "\<And>dbx acc p s y. loop dbx acc p s = Some y \<Longrightarrow>
     \<forall>all q s'. y = (Inr (all, q), s') \<longrightarrow>
     (\<exists>ps. serves dbx p ps (snd s) (snd s') \<and> all = acc @ concat (map entries ps) \<and>
          q = last (p # ps))"
  assume body: "(if has_more p
      then case invoke (FilesListFolderContinue (cursor p))
                 (filesListFolderContinue dbx (cursor p)) s of
           (Inl e, s') \<Rightarrow> Some (Inl e, s')
         | (Inr response', s') \<Rightarrow> loop dbx (acc @ entries response') response' s'
      else Some (Inr (acc, p), s)) = Some y"
  show "\<forall>all q s'. y = (Inr (all, q), s') \<longrightarrow>
     (\<exists>ps. serves dbx p ps (snd s) (snd s') \<and> all = acc @ concat (map entries ps) \<and>
          q = last (p # ps))"
  proof (cases "has_more p")
    case False
    with body have "y = (Inr (acc, p), s)" by simp
    then show ?thesis using False by (auto intro: exI[of _ "[]"])
  next
    case True
    obtain r w1 where step: "filesListFolderContinue dbx (cursor p) (snd s) = (r, w1)"
      by (cases "filesListFolderContinue dbx (cursor p) (snd s)")
    show ?thesis
    proof (cases r)
      case (Inl e)
      with body True step show ?thesis by (auto simp: invoke_def)
    next
      case (Inr p')
      with body True step have rec:
        "loop dbx (acc @ entries p') p' (fst s @ [FilesListFolderContinue (cursor p)], w1) = Some y"
        by (simp add: invoke_def)
      show ?thesis
      proof (intro allI impI)
        fix all q s' assume y: "y = (Inr (all, q), s')"
        from IH[OF rec, rule_format, OF y] obtain ps where
          "serves dbx p' ps w1 (snd s')" "all = (acc @ entries p') @ concat (map entries ps)"
          "q = last (p' # ps)"
          by auto
        then show "\<exists>ps. serves dbx p ps (snd s) (snd s') \<and> all = acc @ concat (map entries ps) \<and>
          q = last (p # ps)"
          using True step Inr by (intro exI[of _ "p' # ps"]) simp
      qed
    qed
  qed
qed

lemma compareEntries_le:
  "compareEntries js a b \<le> 0 \<longleftrightarrow>
     (tag a = Folder \<or> tag b \<noteq> Folder) \<and>
     ((tag a = Folder) = (tag b = Folder) \<longrightarrow>
        localeCompare js (toLowerCase js (name a)) (toLowerCase js (name b)) \<le> 0)"
  by (auto simp: compareEntries_def)

lemma consistent_compareEntries:
  assumes "consistent_comparator (localeCompare js)"
  shows "consistent_comparator (compareEntries js)"
proof -
  let ?key = "\<lambda>e. toLowerCase js (name e)"
  from assms have total: "\<And>a b. localeCompare js a b \<le> 0 \<or> localeCompare js b a \<le> 0"
    and trans: "\<And>a b c. localeCompare js a b \<le> 0 \<Longrightarrow> localeCompare js b c \<le> 0
        \<Longrightarrow> localeCompare js a c \<le> 0"
    unfolding consistent_comparator_def by blast+
  have t: "compareEntries js a b \<le> 0 \<or> compareEntries js b a \<le> 0" for a b
    unfolding compareEntries_le using total[of "?key a" "?key b"]
    by (cases "tag a = Folder"; cases "tag b = Folder") simp_all
  have tr: "compareEntries js a c \<le> 0"
    if "compareEntries js a b \<le> 0" and "compareEntries js b c \<le> 0" for a b c
    using that trans[of "?key a" "?key b" "?key c"] unfolding compareEntries_le
    by (cases "tag a = Folder"; cases "tag b = Folder"; cases "tag c = Folder") simp_all
  show ?thesis
    unfolding consistent_comparator_def using t tr by blast
qed

lemma compare_codes_total: "compare_codes a b \<le> 0 \<or> compare_codes b a \<le> 0"
  by (induction a b rule: compare_codes.induct) auto

lemma compare_codes_trans:
  "compare_codes a b \<le> 0 \<Longrightarrow> compare_codes b c \<le> 0 \<Longrightarrow> compare_codes a c \<le> 0"
proof (induction a b arbitrary: c rule: compare_codes.induct)
  case 1
  then show ?case by simp
next
  case (2 y ys)
  then show ?case by (cases c) auto
next
  case (3 x xs)
  then show ?case by simp
next
  case (4 x xs y ys)
  show ?case
  proof (cases c)
    case Nil
    with 4(3) show ?thesis by simp
  next
    case (Cons z zs)
    show ?thesis
    proof (cases "(of_char x :: nat) < of_char y")
      case True
      with 4(3) Cons show ?thesis by (auto split: if_splits)
    next
      case False
      with 4(2) have xy: "(of_char x :: nat) = of_char y" and r1: "compare_codes xs ys \<le> 0"
        by (auto split: if_splits)
      show ?thesis
      proof (cases "(of_char y :: nat) < of_char z")
        case True
        with xy Cons show ?thesis by simp
      next
        case F2: False
        with 4(3) Cons have yz: "(of_char y :: nat) = of_char z" and r2: "compare_codes ys zs \<le> 0"
          by (auto split: if_splits)
        from 4(1)[OF False _ r1 r2] xy have "compare_codes xs zs \<le> 0" by simp
        with xy yz Cons show ?thesis by simp
      qed
    qed
  qed
qed

lemma consistent_ascii_platform: "consistent_comparator (localeCompare ascii_platform)"
  unfolding consistent_comparator_def ascii_platform_def
  using compare_codes_total compare_codes_trans by auto

lemma listFolder_served:
  assumes first: "filesListFolder dbx pth False w = (Inr p, w1)"
    and rest: "serves dbx p ps w1 w'"
  shows "listFolder js dbx pth ([], w) =
     Some (Inr \<lparr>entries = array_sort (compareEntries js) (concat (map entries (p # ps))),
                cursor = cursor (last (p # ps))\<rparr>,
           (FilesListFolder pth False
              # map (\<lambda>q. FilesListFolderContinue (cursor q)) (butlast (p # ps)), w'))"
  unfolding listFolder_def
  using first continueLoop_serves[OF rest, of "entries p" "[FilesListFolder pth False]"]
  by (simp add: invoke_def)

lemma listFolder_Some:
  assumes "listFolder js dbx pth ([], w) = Some (Inr r, s')"
  shows "\<exists>p ps w1. filesListFolder dbx pth False w = (Inr p, w1) \<and>
           serves dbx p ps w1 (snd s') \<and>
           entries r = array_sort (compareEntries js) (concat (map entries (p # ps))) \<and>
           cursor r = cursor (last (p # ps))"
proof -
  obtain x w1 where first: "filesListFolder dbx pth False w = (x, w1)"
    by (cases "filesListFolder dbx pth False w")
  show ?thesis
  proof (cases x)
    case (Inl e)
    with assms first show ?thesis by (simp add: listFolder_def invoke_def)
  next
    case (Inr p)
    let ?s1 = "([FilesListFolder pth False], w1)"
    from assms first Inr obtain allEntries q where
      loop: "continueLoop dbx (entries p) p ?s1 = Some (Inr (allEntries, q), s')"
      and r: "r = \<lparr>entries = array_sort (compareEntries js) allEntries, cursor = cursor q\<rparr>"
      by (auto simp: listFolder_def invoke_def split: option.splits prod.splits sum.splits)
    from continueLoop_Some[OF loop, rule_format, OF refl] obtain ps where
      "serves dbx p ps w1 (snd s')" "allEntries = entries p @ concat (map entries ps)"
      "q = last (p # ps)"
      by auto
    with first Inr r show ?thesis
      by (intro exI[of _ p] exI[of _ ps] exI[of _ w1]) simp
  qed
qed

text \<open>
  Claim C1. When the first call returns page \<open>p\<close> and the remote then serves the pages
  \<open>ps\<close>, \<open>listFolder\<close> returns all entries of all pages in one array: the stable sort of
  their concatenation (so the result does not depend on where the page boundaries fall),
  a permutation of it of the same length, with the cursor of the last page, after one
  \<open>filesListFolder\<close> call and one continue call per further page. The array is ordered
  folders first and then by \<open>localeCompare\<close> of the lower-cased names, provided the
  host's \<open>localeCompare\<close> is a total preorder. Conversely, whenever \<open>listFolder\<close> returns
  a result it is such a complete aggregate: a failing call gives an error and no entries.
\<close>

theorem listFolder_complete:
  "(filesListFolder dbx pth False w = (Inr p, w1) \<and> serves dbx p ps w1 w' \<longrightarrow>
      (\<exists>r. listFolder js dbx pth ([], w) =
             Some (Inr r, (FilesListFolder pth False
                             # map (\<lambda>q. FilesListFolderContinue (cursor q)) (butlast (p # ps)), w')) \<and>
           entries r = array_sort (compareEntries js) (concat (map entries (p # ps))) \<and>
           mset (entries r) = mset (concat (map entries (p # ps))) \<and>
           length (entries r) = length (concat (map entries (p # ps))) \<and>
           cursor r = cursor (last (p # ps)) \<and>
           (consistent_comparator (localeCompare js) \<longrightarrow>
              sorted_wrt (\<lambda>a b. (tag a = Folder \<or> tag b \<noteq> Folder) \<and>
                    ((tag a = Folder) = (tag b = Folder) \<longrightarrow>
                       localeCompare js (toLowerCase js (name a)) (toLowerCase js (name b)) \<le> 0))
                (entries r)))) \<and>
   (listFolder js dbx pth ([], w) = Some (Inr r', s') \<longrightarrow>
      (\<exists>p ps w1. filesListFolder dbx pth False w = (Inr p, w1) \<and>
           serves dbx p ps w1 (snd s') \<and>
           entries r' = array_sort (compareEntries js) (concat (map entries (p # ps))) \<and>
           cursor r' = cursor (last (p # ps))))"
proof (intro conjI impI)
  assume "listFolder js dbx pth ([], w) = Some (Inr r', s')"
  then show "\<exists>p ps w1. filesListFolder dbx pth False w = (Inr p, w1) \<and>
           serves dbx p ps w1 (snd s') \<and>
           entries r' = array_sort (compareEntries js) (concat (map entries (p # ps))) \<and>
           cursor r' = cursor (last (p # ps))"
    by (rule listFolder_Some)
next
  let ?all = "concat (map entries (p # ps))"
  let ?r = "\<lparr>entries = array_sort (compareEntries js) ?all, cursor = cursor (last (p # ps))\<rparr>"
  let ?ord = "\<lambda>a b. (tag a = Folder \<or> tag b \<noteq> Folder) \<and>
                    ((tag a = Folder) = (tag b = Folder) \<longrightarrow>
                       localeCompare js (toLowerCase js (name a)) (toLowerCase js (name b)) \<le> 0)"
  assume "filesListFolder dbx pth False w = (Inr p, w1) \<and> serves dbx p ps w1 w'"
  then have run: "listFolder js dbx pth ([], w) =
      Some (Inr ?r, (FilesListFolder pth False
                       # map (\<lambda>q. FilesListFolderContinue (cursor q)) (butlast (p # ps)), w'))"
    using listFolder_served[of dbx pth w p w1 ps w' js] by blast
  have m: "mset (entries ?r) = mset ?all"
    by (simp add: mset_array_sort)
  then have l: "length (entries ?r) = length ?all"
    by (rule mset_eq_length)
  have s: "consistent_comparator (localeCompare js) \<longrightarrow> sorted_wrt ?ord (entries ?r)"
  proof
    assume "consistent_comparator (localeCompare js)"
    then have "consistent_comparator (compareEntries js)"
      by (rule consistent_compareEntries)
    then have "sorted_wrt (\<lambda>a b. compareEntries js a b \<le> 0) (array_sort (compareEntries js) ?all)"
      by (rule sorted_array_sort)
    then show "sorted_wrt ?ord (entries ?r)"
      by (simp add: compareEntries_le)
  qed
  from run m l s show "\<exists>r. listFolder js dbx pth ([], w) =
             Some (Inr r, (FilesListFolder pth False
                             # map (\<lambda>q. FilesListFolderContinue (cursor q)) (butlast (p # ps)), w')) \<and>
           entries r = array_sort (compareEntries js) ?all \<and>
           mset (entries r) = mset ?all \<and>
           length (entries r) = length ?all \<and>
           cursor r = cursor (last (p # ps)) \<and>
           (consistent_comparator (localeCompare js) \<longrightarrow> sorted_wrt ?ord (entries r))"
    by (intro exI[of _ ?r]) simp
qed

lemma serves_sample:
  "serves (scripted_remote lp) sample_page1 [sample_page2] [Inr sample_page2] []"
  by (simp add: scripted_remote_def sample_page1_def sample_page2_def)

lemma array_sort_sample:
  "array_sort (compareEntries ascii_platform) (entries sample_page1 @ entries sample_page2) =
     [\<lparr>tag = Folder, name = ''Zeta'', path_lower = ''/docs/zeta'', rev = []\<rparr>,
      \<lparr>tag = File, name = ''A.txt'', path_lower = ''/docs/a.txt'', rev = ''r2''\<rparr>,
      \<lparr>tag = File, name = ''b.txt'', path_lower = ''/docs/b.txt'', rev = ''r1''\<rparr>]"
  by (simp add: array_sort_def compareEntries_def ascii_platform_def ascii_lower_def
        sample_page1_def sample_page2_def)

theorem listFolder_complete_witness:
  "filesListFolder (scripted_remote \<lparr>changes = False, backoff = None\<rparr>) ''/docs'' False
      [Inr sample_page1, Inr sample_page2] = (Inr sample_page1, [Inr sample_page2]) \<and>
   serves (scripted_remote \<lparr>changes = False, backoff = None\<rparr>) sample_page1 [sample_page2]
      [Inr sample_page2] [] \<and>
   consistent_comparator (localeCompare ascii_platform) \<and>
   listFolder ascii_platform (scripted_remote \<lparr>changes = False, backoff = None\<rparr>) ''/docs''
      ([], [Inr sample_page1, Inr sample_page2]) =
     Some (Inr \<lparr>entries =
                  [\<lparr>tag = Folder, name = ''Zeta'', path_lower = ''/docs/zeta'', rev = []\<rparr>,
                   \<lparr>tag = File, name = ''A.txt'', path_lower = ''/docs/a.txt'', rev = ''r2''\<rparr>,
                   \<lparr>tag = File, name = ''b.txt'', path_lower = ''/docs/b.txt'', rev = ''r1''\<rparr>],
                cursor = ''c2''\<rparr>,
           ([FilesListFolder ''/docs'' False, FilesListFolderContinue ''c1''], []))"
proof -
  let ?dbx = "scripted_remote \<lparr>changes = False, backoff = None\<rparr>"
  have first: "filesListFolder ?dbx ''/docs'' False [Inr sample_page1, Inr sample_page2] =
      (Inr sample_page1, [Inr sample_page2])"
    by (simp add: scripted_remote_def)
  have hyp: "filesListFolder ?dbx ''/docs'' False [Inr sample_page1, Inr sample_page2] =
      (Inr sample_page1, [Inr sample_page2]) \<and>
      serves ?dbx sample_page1 [sample_page2] [Inr sample_page2] []"
    using first serves_sample by blast
  from listFolder_complete[where dbx = ?dbx and js = ascii_platform, THEN conjunct1, rule_format, OF hyp]
  obtain r where run: "listFolder ascii_platform ?dbx ''/docs''
      ([], [Inr sample_page1, Inr sample_page2]) =
     Some (Inr r, (FilesListFolder ''/docs'' False
        # map (\<lambda>q. FilesListFolderContinue (cursor q)) (butlast (sample_page1 # [sample_page2])), []))"
    and e: "entries r = array_sort (compareEntries ascii_platform)
        (concat (map entries (sample_page1 # [sample_page2])))"
    and c: "cursor r = cursor (last (sample_page1 # [sample_page2]))"
    by blast
  have "r = \<lparr>entries =
                  [\<lparr>tag = Folder, name = ''Zeta'', path_lower = ''/docs/zeta'', rev = []\<rparr>,
                   \<lparr>tag = File, name = ''A.txt'', path_lower = ''/docs/a.txt'', rev = ''r2''\<rparr>,
                   \<lparr>tag = File, name = ''b.txt'', path_lower = ''/docs/b.txt'', rev = ''r1''\<rparr>],
                cursor = ''c2''\<rparr>"
    using e c array_sort_sample by (cases r) (simp add: sample_page2_def)
  with run first serves_sample consistent_ascii_platform show ?thesis
    by (simp add: sample_page1_def)
qed

section \<open>Applying a delta batch\<close>



























section \<open>One run of the long-polling driver\<close>

lemma continueLoop_log:
  assumes run: "continueLoop dbx0 acc0 p0 s0 = Some y0"
  shows "\<exists>cs. fst (snd y0) = fst s0 @ map FilesListFolderContinue cs"
proof (rule continueLoop.raw_induct[where P = "\<lambda>dbx acc p s y.
    \<exists>cs. fst (snd y) = fst s @ map FilesListFolderContinue cs", OF _ run])
  fix loop :: "'a dropbox \<Rightarrow> entry list \<Rightarrow> list_folder_result \<Rightarrow> 'a net
     \<Rightarrow> ((error + entry list \<times> list_folder_result) \<times> 'a net) option"
  fix dbx acc p s y
  assume IH: "\<And>dbx acc p s y. loop dbx acc p s = Some y \<Longrightarrow>
     \<exists>cs. fst (snd y) = fst s @ map FilesListFolderContinue cs"
  assume body: "(if has_more p
      then case invoke (FilesListFolderContinue (cursor p))
                 (filesListFolderContinue dbx (cursor p)) s of
           (Inl e, s') \<Rightarrow> Some (Inl e, s')
         | (Inr response', s') \<Rightarrow> loop dbx (acc @ entries response') response' s'
      else Some (Inr (acc, p), s)) = Some y"
  show "\<exists>cs. fst (snd y) = fst s @ map FilesListFolderContinue cs"
  proof (cases "has_more p")
    case False
    with body have "y = (Inr (acc, p), s)" by simp
    then show ?thesis by (intro exI[of _ "[]"]) simp
  next
    case True
    obtain r w1 where step: "filesListFolderContinue dbx (cursor p) (snd s) = (r, w1)"
      by (cases "filesListFolderContinue dbx (cursor p) (snd s)")
    show ?thesis
    proof (cases r)
      case (Inl e)
      with body True step have "y = (Inl e, (fst s @ [FilesListFolderContinue (cursor p)], w1))"
        by (simp add: invoke_def)
      then show ?thesis by (intro exI[of _ "[cursor p]"]) simp
    next
      case (Inr p')
      with body True step have
        "loop dbx (acc @ entries p') p' (fst s @ [FilesListFolderContinue (cursor p)], w1) = Some y"
        by (simp add: invoke_def)
      from IH[OF this] obtain cs where
        "fst (snd y) = (fst s @ [FilesListFolderContinue (cursor p)]) @ map FilesListFolderContinue cs"
        by auto
      then show ?thesis by (intro exI[of _ "cursor p # cs"]) simp
    qed
  qed
qed


lemma listFolder_log:
  assumes "listFolder js dbx pth s = Some (x, s')"
  shows "\<exists>cs. fst s' = fst s @ FilesListFolder pth False # map FilesListFolderContinue cs"
proof -
  obtain r w1 where first: "filesListFolder dbx pth False (snd s) = (r, w1)"
    by (cases "filesListFolder dbx pth False (snd s)")
  show ?thesis
  proof (cases r)
    case (Inl e)
    with assms first show ?thesis
      by (intro exI[of _ "[]"]) (auto simp: listFolder_def invoke_def)
  next
    case (Inr p)
    let ?s1 = "(fst s @ [FilesListFolder pth False], w1)"
    from assms first Inr obtain y where loop: "continueLoop dbx (entries p) p ?s1 = Some y"
      and s': "snd y = s'"
      by (auto simp: listFolder_def invoke_def split: option.splits prod.splits sum.splits)
    from continueLoop_log[OF loop] s' show ?thesis by auto
  qed
qed

lemma loadCurrentFolder_Some:
  assumes "loadCurrentFolder js dbx pth st s = Some (st', s')"
  shows "\<exists>x. listFolder js dbx pth s = Some (x, s') \<and>
           (case x of
              Inr r \<Rightarrow> entries_st st' = entries r \<and> cursor_st st' = Some (cursor r)
            | Inl e \<Rightarrow> entries_st st' = entries_st st \<and> cursor_st st' = cursor_st st) \<and>
           isPollingRef st' = isPollingRef st \<and>
           longPollTimeoutRef st' = longPollTimeoutRef st \<and>
           backoffTimeoutRef st' = backoffTimeoutRef st"
  using assms
  by (auto simp: loadCurrentFolder_def Let_def showToast_def handleNavigateUp_def
        split: option.splits prod.splits sum.splits error.splits if_splits)

lemma startLongPolling_polled:
  assumes "c \<noteq> []" and "\<not> isPollingRef st"
    and "startLongPoll dbx c s = (Inr result, s1)"
  shows "startLongPolling js dbx (Some c) pth st s =
    (case (if changes result then
             (case getChanges dbx c s1 of
                None \<Rightarrow> None
              | Some (Inr chg, s2) \<Rightarrow>
                  Some (st\<lparr>isPollingRef := True\<rparr>
                          \<lparr>entries_st :=
                             applyChanges js (entries_st (st\<lparr>isPollingRef := True\<rparr>))
                               (entries chg),
                           cursor_st := Some (cursor chg)\<rparr>, s2)
              | Some (Inl err, s2) \<Rightarrow>
                  loadCurrentFolder js dbx pth (st\<lparr>isPollingRef := True\<rparr>) s2)
           else Some (st\<lparr>isPollingRef := True\<rparr>, s1)) of
       None \<Rightarrow> None
     | Some (st2, s2) \<Rightarrow>
         (case backoff result of
            None \<Rightarrow> Some (st2\<lparr>longPollTimeoutRef := Some 1000\<rparr>, s2)
          | Some b \<Rightarrow>
              if b \<noteq> 0 then
                Some (st2\<lparr>isPollingRef := False, backoffTimeoutRef := Some (b * 1000)\<rparr>, s2)
              else Some (st2\<lparr>longPollTimeoutRef := Some 1000\<rparr>, s2)))"
  using assms
  by (auto simp: startLongPolling_def Let_def split: option.splits prod.splits sum.splits)


lemma not_longpoll_continues: "\<forall>x\<in>set (map FilesListFolderContinue cs). \<not> is_longpoll x"
  by simp


lemma continueLoop_done:
  "\<not> has_more p \<Longrightarrow> continueLoop dbx acc p s = Some (Inr (acc, p), s)"
  by (subst continueLoop.simps) simp








lemma getChanges_single:
  assumes "filesListFolderContinue dbx c (snd s) = (Inr p, w1)" and "\<not> has_more p"
  shows "getChanges dbx c s =
    Some (Inr \<lparr>entries = entries p, cursor = cursor p\<rparr>, (fst s @ [FilesListFolderContinue c], w1))"
  using assms by (simp add: getChanges_def invoke_def continueLoop_done)

lemma getChanges_failed:
  assumes "filesListFolderContinue dbx c (snd s) = (Inl e, w1)"
  shows "getChanges dbx c s = Some (Inl e, (fst s @ [FilesListFolderContinue c], w1))"
  using assms by (simp add: getChanges_def invoke_def)

lemma schedule_keeps:
  "\<exists>st'. (case bo of
            None \<Rightarrow> Some (stx\<lparr>longPollTimeoutRef := Some 1000\<rparr>, sx)
          | Some b \<Rightarrow>
              if b \<noteq> 0 then
                Some (stx\<lparr>isPollingRef := False, backoffTimeoutRef := Some (b * 1000)\<rparr>, sx)
              else Some (stx\<lparr>longPollTimeoutRef := Some 1000\<rparr>, sx)) = Some (st', sx) \<and>
         entries_st st' = entries_st (stx :: browser_state) \<and> cursor_st st' = cursor_st stx"
  by (cases bo) auto

lemma delta_failure_unfold:
  assumes "c \<noteq> []" and "\<not> isPollingRef st"
    and "startLongPoll dbx c s = (Inr result, s1)" and "changes result"
    and "getChanges dbx c s1 = Some (Inl err, s2)"
  shows "startLongPolling js dbx (Some c) pth st s =
      (case loadCurrentFolder js dbx pth (st\<lparr>isPollingRef := True\<rparr>) s2 of None \<Rightarrow> None
       | Some (st2, s3) \<Rightarrow>
          (case backoff result of
            None \<Rightarrow> Some (st2\<lparr>longPollTimeoutRef := Some 1000\<rparr>, s3)
          | Some b \<Rightarrow>
              if b \<noteq> 0 then
                Some (st2\<lparr>isPollingRef := False, backoffTimeoutRef := Some (b * 1000)\<rparr>, s3)
              else Some (st2\<lparr>longPollTimeoutRef := Some 1000\<rparr>, s3)))"
  unfolding startLongPolling_polled[OF assms(1,2,3), of js pth] using assms(4,5) by simp

lemma delta_failure_diverges:
  assumes "c \<noteq> []" and "\<not> isPollingRef st"
    and "startLongPoll dbx c s = (Inr result, s1)" and "changes result"
    and "getChanges dbx c s1 = Some (Inl err, s2)"
  shows "listFolder js dbx pth s2 = None \<longrightarrow> startLongPolling js dbx (Some c) pth st s = None"
  unfolding delta_failure_unfold[OF assms]
  by (simp add: loadCurrentFolder_def Let_def)

lemma delta_failure_reloaded:
  assumes "c \<noteq> []" and "\<not> isPollingRef st"
    and "startLongPoll dbx c s = (Inr result, s1)" and "changes result"
    and "getChanges dbx c s1 = Some (Inl err, s2)"
  shows "\<forall>r s3. listFolder js dbx pth s2 = Some (Inr r, s3) \<longrightarrow>
            (let reloaded = st\<lparr>isPollingRef := True, loading := False, error_st := None,
                               entries_st := entries r, cursor_st := Some (cursor r)\<rparr>
             in startLongPolling js dbx (Some c) pth st s =
                  Some (case backoff result of
                          None \<Rightarrow> reloaded\<lparr>longPollTimeoutRef := Some 1000\<rparr>
                        | Some b \<Rightarrow>
                            if b \<noteq> 0
                            then reloaded\<lparr>isPollingRef := False,
                                          backoffTimeoutRef := Some (b * 1000)\<rparr>
                            else reloaded\<lparr>longPollTimeoutRef := Some 1000\<rparr>, s3))"
  unfolding delta_failure_unfold[OF assms]
  by (simp add: loadCurrentFolder_def Let_def split: option.splits)

lemma delta_failure_reload_failed:
  assumes "c \<noteq> []" and "\<not> isPollingRef st"
    and "startLongPoll dbx c s = (Inr result, s1)" and "changes result"
    and "getChanges dbx c s1 = Some (Inl err, s2)"
  shows "\<forall>e s3. listFolder js dbx pth s2 = Some (Inl e, s3) \<longrightarrow>
            (\<exists>st2. loadCurrentFolder js dbx pth (st\<lparr>isPollingRef := True\<rparr>) s2 = Some (st2, s3) \<and>
               entries_st st2 = entries_st st \<and> cursor_st st2 = cursor_st st \<and>
               isPollingRef st2 \<and> longPollTimeoutRef st2 = longPollTimeoutRef st \<and>
               backoffTimeoutRef st2 = backoffTimeoutRef st \<and>
               startLongPolling js dbx (Some c) pth st s =
                  Some (case backoff result of
                          None \<Rightarrow> st2\<lparr>longPollTimeoutRef := Some 1000\<rparr>
                        | Some b \<Rightarrow>
                            if b \<noteq> 0
                            then st2\<lparr>isPollingRef := False, backoffTimeoutRef := Some (b * 1000)\<rparr>
                            else st2\<lparr>longPollTimeoutRef := Some 1000\<rparr>, s3))"
proof (intro allI impI)
  fix e s3
  assume lf: "listFolder js dbx pth s2 = Some (Inl e, s3)"
  then obtain st2 where l: "loadCurrentFolder js dbx pth (st\<lparr>isPollingRef := True\<rparr>) s2 = Some (st2, s3)"
    by (simp add: loadCurrentFolder_def Let_def)
  from loadCurrentFolder_Some[OF l] lf
  have keep: "entries_st st2 = entries_st st" "cursor_st st2 = cursor_st st" "isPollingRef st2"
    "longPollTimeoutRef st2 = longPollTimeoutRef st" "backoffTimeoutRef st2 = backoffTimeoutRef st"
    by auto
  have "startLongPolling js dbx (Some c) pth st s =
                  Some (case backoff result of
                          None \<Rightarrow> st2\<lparr>longPollTimeoutRef := Some 1000\<rparr>
                        | Some b \<Rightarrow>
                            if b \<noteq> 0
                            then st2\<lparr>isPollingRef := False, backoffTimeoutRef := Some (b * 1000)\<rparr>
                            else st2\<lparr>longPollTimeoutRef := Some 1000\<rparr>, s3)"
    unfolding delta_failure_unfold[OF assms] l by (simp split: option.splits)
  with l keep show "\<exists>st2. loadCurrentFolder js dbx pth (st\<lparr>isPollingRef := True\<rparr>) s2 = Some (st2, s3) \<and>
               entries_st st2 = entries_st st \<and> cursor_st st2 = cursor_st st \<and>
               isPollingRef st2 \<and> longPollTimeoutRef st2 = longPollTimeoutRef st \<and>
               backoffTimeoutRef st2 = backoffTimeoutRef st \<and>
               startLongPolling js dbx (Some c) pth st s =
                  Some (case backoff result of
                          None \<Rightarrow> st2\<lparr>longPollTimeoutRef := Some 1000\<rparr>
                        | Some b \<Rightarrow>
                            if b \<noteq> 0
                            then st2\<lparr>isPollingRef := False, backoffTimeoutRef := Some (b * 1000)\<rparr>
                            else st2\<lparr>longPollTimeoutRef := Some 1000\<rparr>, s3)"
    by blast
qed

lemma delta_failure_returns:
  assumes "c \<noteq> []" and "\<not> isPollingRef st"
    and "startLongPoll dbx c s = (Inr result, s1)" and "changes result"
    and "getChanges dbx c s1 = Some (Inl err, s2)"
  shows "(\<forall>r s3. listFolder js dbx pth s2 = Some (Inr r, s3) \<longrightarrow>
            (\<exists>st'. startLongPolling js dbx (Some c) pth st s = Some (st', s3) \<and>
               entries_st st' = entries r \<and> cursor_st st' = Some (cursor r))) \<and>
         (\<forall>e s3. listFolder js dbx pth s2 = Some (Inl e, s3) \<longrightarrow>
            (\<exists>st'. startLongPolling js dbx (Some c) pth st s = Some (st', s3) \<and>
               entries_st st' = entries_st st \<and> cursor_st st' = cursor_st st)) \<and>
         (\<forall>st' s3. startLongPolling js dbx (Some c) pth st s = Some (st', s3) \<longrightarrow>
            (\<exists>x cs. listFolder js dbx pth s2 = Some (x, s3) \<and>
               fst s3 = fst s2 @ FilesListFolder pth False # map FilesListFolderContinue cs))"
proof -
  let ?st1 = "st\<lparr>isPollingRef := True\<rparr>"
  note unfold = delta_failure_unfold[OF assms, of js pth]
  note fin = schedule_keeps[where bo = "backoff result"]
  have a: "\<exists>st'. startLongPolling js dbx (Some c) pth st s = Some (st', s3) \<and>
               entries_st st' = entries r \<and> cursor_st st' = Some (cursor r)"
    if "listFolder js dbx pth s2 = Some (Inr r, s3)" for r s3
  proof -
    from that obtain st2 where l: "loadCurrentFolder js dbx pth ?st1 s2 = Some (st2, s3)"
      and "entries_st st2 = entries r" "cursor_st st2 = Some (cursor r)"
      by (simp add: loadCurrentFolder_def Let_def)
    with fin[where stx = st2 and sx = s3] show ?thesis unfolding unfold by auto
  qed
  have b: "\<exists>st'. startLongPolling js dbx (Some c) pth st s = Some (st', s3) \<and>
               entries_st st' = entries_st st \<and> cursor_st st' = cursor_st st"
    if "listFolder js dbx pth s2 = Some (Inl e, s3)" for e s3
  proof -
    from that obtain st2 where l: "loadCurrentFolder js dbx pth ?st1 s2 = Some (st2, s3)"
      by (simp add: loadCurrentFolder_def Let_def)
    from loadCurrentFolder_Some[OF l] that
    have "entries_st st2 = entries_st st" "cursor_st st2 = cursor_st st" by auto
    with l fin[where stx = st2 and sx = s3] show ?thesis unfolding unfold by auto
  qed
  have c: "\<exists>x cs. listFolder js dbx pth s2 = Some (x, s3) \<and>
               fst s3 = fst s2 @ FilesListFolder pth False # map FilesListFolderContinue cs"
    if "startLongPolling js dbx (Some c) pth st s = Some (st', s3)" for st' s3
  proof -
    from that obtain st2 where l: "loadCurrentFolder js dbx pth ?st1 s2 = Some (st2, s3)"
      unfolding unfold by (auto split: option.splits if_splits)
    from loadCurrentFolder_Some[OF l] obtain x where lf: "listFolder js dbx pth s2 = Some (x, s3)"
      by blast
    from listFolder_log[OF lf] lf show ?thesis by blast
  qed
  from a b c show ?thesis by blast
qed

text \<open>
  Claim C5, amended. When the delta fetch of a run fails, the run itself reloads the
  folder with \<open>listFolder\<close> for the current path, the \<open>filesListFolder\<close> call following
  the failed fetch in the log; it does not return if the reload does not. If the reload
  succeeds, the entries are replaced by the fresh listing and the cursor by its cursor;
  if it fails too, entries, cursor and timers stay as they were. In both cases the run
  returns normally and then sets the timer of the next \<open>startLongPolling\<close>: with a
  non-zero \<open>backoff\<close> of \<open>b\<close> seconds it clears \<open>isPollingRef\<close> and stores \<open>b * 1000\<close> in
  \<open>backoffTimeoutRef\<close>, otherwise it stores 1000 in \<open>longPollTimeoutRef\<close> and
  \<open>isPollingRef\<close> stays set.
\<close>

theorem startLongPolling_delta_failure:
  assumes "c \<noteq> []" and "\<not> isPollingRef st"
    and "startLongPoll dbx c s = (Inr result, s1)" and "changes result"
    and "getChanges dbx c s1 = Some (Inl err, s2)"
  shows "(listFolder js dbx pth s2 = None \<longrightarrow> startLongPolling js dbx (Some c) pth st s = None) \<and>
         (\<forall>r s3. listFolder js dbx pth s2 = Some (Inr r, s3) \<longrightarrow>
            (let reloaded = st\<lparr>isPollingRef := True, loading := False, error_st := None,
                               entries_st := entries r, cursor_st := Some (cursor r)\<rparr>
             in startLongPolling js dbx (Some c) pth st s =
                  Some (case backoff result of
                          None \<Rightarrow> reloaded\<lparr>longPollTimeoutRef := Some 1000\<rparr>
                        | Some b \<Rightarrow>
                            if b \<noteq> 0
                            then reloaded\<lparr>isPollingRef := False,
                                          backoffTimeoutRef := Some (b * 1000)\<rparr>
                            else reloaded\<lparr>longPollTimeoutRef := Some 1000\<rparr>, s3))) \<and>
         (\<forall>e s3. listFolder js dbx pth s2 = Some (Inl e, s3) \<longrightarrow>
            (\<exists>st2. loadCurrentFolder js dbx pth (st\<lparr>isPollingRef := True\<rparr>) s2 = Some (st2, s3) \<and>
               entries_st st2 = entries_st st \<and> cursor_st st2 = cursor_st st \<and>
               isPollingRef st2 \<and> longPollTimeoutRef st2 = longPollTimeoutRef st \<and>
               backoffTimeoutRef st2 = backoffTimeoutRef st \<and>
               startLongPolling js dbx (Some c) pth st s =
                  Some (case backoff result of
                          None \<Rightarrow> st2\<lparr>longPollTimeoutRef := Some 1000\<rparr>
                        | Some b \<Rightarrow>
                            if b \<noteq> 0
                            then st2\<lparr>isPollingRef := False, backoffTimeoutRef := Some (b * 1000)\<rparr>
                            else st2\<lparr>longPollTimeoutRef := Some 1000\<rparr>, s3))) \<and>
         (\<forall>r s3. listFolder js dbx pth s2 = Some (Inr r, s3) \<longrightarrow>
            (\<exists>st'. startLongPolling js dbx (Some c) pth st s = Some (st', s3) \<and>
               entries_st st' = entries r \<and> cursor_st st' = Some (cursor r))) \<and>
         (\<forall>e s3. listFolder js dbx pth s2 = Some (Inl e, s3) \<longrightarrow>
            (\<exists>st'. startLongPolling js dbx (Some c) pth st s = Some (st', s3) \<and>
               entries_st st' = entries_st st \<and> cursor_st st' = cursor_st st)) \<and>
         (\<forall>st' s3. startLongPolling js dbx (Some c) pth st s = Some (st', s3) \<longrightarrow>
            (\<exists>x cs. listFolder js dbx pth s2 = Some (x, s3) \<and>
               fst s3 = fst s2 @ FilesListFolder pth False # map FilesListFolderContinue cs))"
  by (rule conjI[OF delta_failure_diverges[OF assms]
        conjI[OF delta_failure_reloaded[OF assms]
          conjI[OF delta_failure_reload_failed[OF assms] delta_failure_returns[OF assms]]]])


lemma run_delta_failure_reloaded:
  "startLongPolling ascii_platform (scripted_remote \<lparr>changes = True, backoff = None\<rparr>)
     (Some ''c1'') ''/docs'' sample_state ([], [Inl (api_error ''reset''), Inr sample_page2]) =
   Some (\<lparr>entries_st = [\<lparr>tag = File, name = ''A.txt'', path_lower = ''/docs/a.txt'', rev = ''r2''\<rparr>],
          cursor_st = Some ''c2'', loading = False, error_st = None, toast = None,
          currentPath_st = ''/docs'', isPollingRef = True,
          longPollTimeoutRef = Some 1000, backoffTimeoutRef = None\<rparr>,
         ([FilesListFolderLongpoll ''c1'' 30, FilesListFolderContinue ''c1'',
           FilesListFolder ''/docs'' False], []))"
  by (simp add: startLongPolling_def Let_def startLongPoll_def invoke_def getChanges_def
        loadCurrentFolder_def listFolder_def continueLoop_done scripted_remote_def
        sample_state_def sample_page2_def array_sort_def)



lemma startLongPoll_scripted:
  "startLongPoll (scripted_remote lp) c (tr, w) = (Inr lp, (tr @ [FilesListFolderLongpoll c 30], w))"
  by (simp add: startLongPoll_def invoke_def scripted_remote_def)

lemma sample_state_idle: "\<not> isPollingRef sample_state"
  by (simp add: sample_state_def)

text \<open>
  Claim C5 as stated fails: the delta fetch fails with a reset cursor, and the run
  re-lists the folder, replaces the entries, moves the cursor from \<open>c1\<close> to \<open>c2\<close> and
  returns normally.
\<close>

theorem startLongPolling_delta_failure_counterexample:
  "entries_st sample_state =
     [\<lparr>tag = File, name = ''b.txt'', path_lower = ''/docs/b.txt'', rev = ''r1''\<rparr>] \<and>
   cursor_st sample_state = Some ''c1'' \<and>
   startLongPolling ascii_platform (scripted_remote \<lparr>changes = True, backoff = None\<rparr>)
     (Some ''c1'') ''/docs'' sample_state ([], [Inl (api_error ''reset''), Inr sample_page2]) =
   Some (\<lparr>entries_st = [\<lparr>tag = File, name = ''A.txt'', path_lower = ''/docs/a.txt'', rev = ''r2''\<rparr>],
          cursor_st = Some ''c2'', loading = False, error_st = None, toast = None,
          currentPath_st = ''/docs'', isPollingRef = True,
          longPollTimeoutRef = Some 1000, backoffTimeoutRef = None\<rparr>,
         ([FilesListFolderLongpoll ''c1'' 30, FilesListFolderContinue ''c1'',
           FilesListFolder ''/docs'' False], []))"
  using run_delta_failure_reloaded by (simp add: sample_state_def sample_entries_def)

theorem startLongPolling_delta_failure_witness:
  "startLongPoll (scripted_remote \<lparr>changes = True, backoff = Some 5\<rparr>) ''c1''
      ([], [Inl (api_error ''reset''), Inr sample_page2]) =
     (Inr \<lparr>changes = True, backoff = Some 5\<rparr>,
      ([FilesListFolderLongpoll ''c1'' 30], [Inl (api_error ''reset''), Inr sample_page2])) \<and>
   getChanges (scripted_remote \<lparr>changes = True, backoff = Some 5\<rparr>) ''c1''
      ([FilesListFolderLongpoll ''c1'' 30], [Inl (api_error ''reset''), Inr sample_page2]) =
     Some (Inl (api_error ''reset''),
           ([FilesListFolderLongpoll ''c1'' 30, FilesListFolderContinue ''c1''], [Inr sample_page2])) \<and>
   listFolder ascii_platform (scripted_remote \<lparr>changes = True, backoff = Some 5\<rparr>) ''/docs''
      ([FilesListFolderLongpoll ''c1'' 30, FilesListFolderContinue ''c1''], [Inr sample_page2]) =
     Some (Inr \<lparr>entries = [\<lparr>tag = File, name = ''A.txt'', path_lower = ''/docs/a.txt'', rev = ''r2''\<rparr>],
                cursor = ''c2''\<rparr>,
           ([FilesListFolderLongpoll ''c1'' 30, FilesListFolderContinue ''c1'',
             FilesListFolder ''/docs'' False], [])) \<and>
   startLongPolling ascii_platform (scripted_remote \<lparr>changes = True, backoff = Some 5\<rparr>)
       (Some ''c1'') ''/docs'' sample_state ([], [Inl (api_error ''reset''), Inr sample_page2]) =
     Some (\<lparr>entries_st = [\<lparr>tag = File, name = ''A.txt'', path_lower = ''/docs/a.txt'', rev = ''r2''\<rparr>],
            cursor_st = Some ''c2'', loading = False, error_st = None, toast = None,
            currentPath_st = ''/docs'', isPollingRef = False,
            longPollTimeoutRef = None, backoffTimeoutRef = Some 5000\<rparr>,
           ([FilesListFolderLongpoll ''c1'' 30, FilesListFolderContinue ''c1'',
             FilesListFolder ''/docs'' False], []))"
proof -
  let ?lp = "\<lparr>changes = True, backoff = Some 5\<rparr>"
  let ?dbx = "scripted_remote ?lp"
  let ?s = "([] :: api_call list, [Inl (api_error ''reset''), Inr sample_page2])"
  let ?s1 = "([FilesListFolderLongpoll ''c1'' 30], [Inl (api_error ''reset''), Inr sample_page2])"
  let ?s2 = "([FilesListFolderLongpoll ''c1'' 30, FilesListFolderContinue ''c1''], [Inr sample_page2])"
  let ?s3 = "([FilesListFolderLongpoll ''c1'' 30, FilesListFolderContinue ''c1'',
                    FilesListFolder ''/docs'' False], [] :: (error + list_folder_result) list)"
  have c: "''c1'' \<noteq> []" by simp
  have poll: "startLongPoll ?dbx ''c1'' ?s = (Inr ?lp, ?s1)"
    using startLongPoll_scripted[of ?lp "''c1''" "[]"] by simp
  have ch: "changes ?lp" by simp
  have delta: "getChanges ?dbx ''c1'' ?s1 = Some (Inl (api_error ''reset''), ?s2)"
    by (simp add: getChanges_def invoke_def scripted_remote_def)
  have reload: "listFolder ascii_platform ?dbx ''/docs'' ?s2 =
      Some (Inr \<lparr>entries = [\<lparr>tag = File, name = ''A.txt'', path_lower = ''/docs/a.txt'', rev = ''r2''\<rparr>],
                 cursor = ''c2''\<rparr>, ?s3)"
    by (simp add: listFolder_def invoke_def continueLoop_done scripted_remote_def
          sample_page2_def array_sort_def)
  from startLongPolling_delta_failure[OF c sample_state_idle poll ch delta,
      of ascii_platform "''/docs''", THEN conjunct2, THEN conjunct1, rule_format, OF reload]
  have "startLongPolling ascii_platform ?dbx (Some ''c1'') ''/docs'' sample_state ?s =
     Some (\<lparr>entries_st = [\<lparr>tag = File, name = ''A.txt'', path_lower = ''/docs/a.txt'', rev = ''r2''\<rparr>],
            cursor_st = Some ''c2'', loading = False, error_st = None, toast = None,
            currentPath_st = ''/docs'', isPollingRef = False,
            longPollTimeoutRef = None, backoffTimeoutRef = Some 5000\<rparr>, ?s3)"
    by (simp add: Let_def sample_state_def)
  with poll delta reload show ?thesis by blast
qed



section \<open>The batch scheduler\<close>

lemma within_pools_step: "within_pools B C s \<Longrightarrow> within_pools B C (pool_step B C s e)"
proof (cases e)
  case JobStarts
  then show "within_pools B C s \<Longrightarrow> ?thesis" by (auto simp: within_pools_def)
next
  case (OpStarts i)
  then show "within_pools B C s \<Longrightarrow> ?thesis"
    by (auto simp: within_pools_def list_all_length nth_list_update)
next
  case (OpEnds i)
  then show "within_pools B C s \<Longrightarrow> ?thesis"
    by (auto simp: within_pools_def list_all_length nth_list_update)
next
  case (JobEnds i)
  then show "within_pools B C s \<Longrightarrow> ?thesis"
    by (auto simp: within_pools_def list_all_iff dest: in_set_takeD in_set_dropD)
qed

lemma within_pools_foldl:
  "within_pools B C s \<Longrightarrow> within_pools B C (foldl (pool_step B C) s evs)"
  by (induction evs arbitrary: s) (simp_all add: within_pools_step)

lemma sum_list_bounded: "list_all (\<lambda>n. n \<le> C) xs \<Longrightarrow> sum_list xs \<le> length xs * (C::nat)"
  by (induction xs) auto

text \<open>
  Claim C9. For every schedule of events, the chunk operations in flight never exceed
  \<open>B * C\<close>: at most \<open>B\<close> jobs run and each has at most \<open>C\<close> operations in flight.
\<close>

theorem pools_bound_in_flight:
  "in_flight (runBatch_schedule B C jobs evs) \<le> B * C \<and>
   length (running (runBatch_schedule B C jobs evs)) \<le> B \<and>
   list_all (\<lambda>n. n \<le> C) (running (runBatch_schedule B C jobs evs))"
proof -
  let ?s = "runBatch_schedule B C jobs evs"
  have "within_pools B C \<lparr>waiting = jobs, running = [], finished = 0\<rparr>"
    by (simp add: within_pools_def)
  then have w: "within_pools B C ?s"
    unfolding runBatch_schedule_def by (rule within_pools_foldl)
  then have "sum_list (running ?s) \<le> length (running ?s) * C"
    by (intro sum_list_bounded) (simp add: within_pools_def)
  also have "\<dots> \<le> B * C"
    using w by (intro mult_le_mono1) (simp add: within_pools_def)
  finally show ?thesis using w by (simp add: in_flight_def within_pools_def)
qed

theorem pools_bound_in_flight_witness:
  "in_flight (runBatch_schedule 2 2 3
      [JobStarts, JobStarts, JobStarts, OpStarts 0, OpStarts 0, OpStarts 0, OpStarts 1, OpStarts 1]) = 4 \<and>
   in_flight (runBatch_schedule 2 2 3
      [JobStarts, JobStarts, JobStarts, OpStarts 0, OpStarts 0, OpStarts 0, OpStarts 1, OpStarts 1])
     \<le> 2 * 2"
proof -
  have "in_flight (runBatch_schedule 2 2 3
      [JobStarts, JobStarts, JobStarts, OpStarts 0, OpStarts 0, OpStarts 0, OpStarts 1, OpStarts 1]) = 4"
    by (simp add: runBatch_schedule_def in_flight_def)
  with pools_bound_in_flight[of 2 2 3
      "[JobStarts, JobStarts, JobStarts, OpStarts 0, OpStarts 0, OpStarts 0, OpStarts 1, OpStarts 1]"]
  show ?thesis by blast
qed

end
